theory Spec2Isabelle
  imports Main "HOL-Library.FSet" "HOL-Library.Product_Lexorder" "HOL-Library.Multiset"
begin

section \<open>Data model of the Minesweeper knowledge base\<close>

text \<open>
  The development embeds \<^verbatim>\<open>01 - Knowledge/minesweeper/minesweeper.py\<close>: the classes
  \<^verbatim>\<open>Sentence\<close> and \<^verbatim>\<open>MinesweeperAI\<close>, and the oracle \<^verbatim>\<open>Minesweeper.nearby_mines\<close>.

  A cell is a Python tuple \<^verbatim>\<open>(i, j)\<close> of unbounded integers. A Python \<^verbatim>\<open>set\<close> of cells is
  a finite set. Sentences compare by value (\<^verbatim>\<open>__eq__\<close> compares cells and count), no sentence
  object occurs twice in the knowledge list, and the only aliases of a sentence are the
  snapshots \<^verbatim>\<open>self.knowledge.copy()\<close>, which are read while no sentence is mutated; so the
  knowledge list is a list of values.
\<close>

type_synonym cell = "int \<times> int"

text \<open>The only exception the modelled code can raise: \<^verbatim>\<open>list.remove(x)\<close> when \<^verbatim>\<open>x\<close> is absent.\<close>

datatype error = ValueError

record sentence =
  cells :: "cell fset"
  count :: int

text \<open>\<^verbatim>\<open>Sentence.__init__\<close>: stores a copy of the cells and the count; it has no check.\<close>

definition Sentence :: "cell fset \<Rightarrow> int \<Rightarrow> sentence" where
  "Sentence cs n = \<lparr>cells = cs, count = n\<rparr>"

definition known_mines :: "sentence \<Rightarrow> cell fset" where
  "known_mines s = (if int (fcard (cells s)) = count s then cells s else {||})"

definition known_safes :: "sentence \<Rightarrow> cell fset" where
  "known_safes s = (if count s = 0 then cells s else {||})"

text \<open>\<^verbatim>\<open>Sentence.mark_mine\<close> and \<^verbatim>\<open>Sentence.mark_safe\<close>.\<close>

definition sentence_mark_mine :: "cell \<Rightarrow> sentence \<Rightarrow> sentence" where
  "sentence_mark_mine c s =
     (if c |\<in>| cells s then s\<lparr>cells := cells s |-| {|c|}, count := count s - 1\<rparr> else s)"

definition sentence_mark_safe :: "cell \<Rightarrow> sentence \<Rightarrow> sentence" where
  "sentence_mark_safe c s =
     (if c |\<in>| cells s then s\<lparr>cells := cells s |-| {|c|}\<rparr> else s)"

definition is_subset :: "sentence \<Rightarrow> sentence \<Rightarrow> bool" where
  "is_subset s other_sentence =
     (if cells s \<noteq> cells other_sentence \<and> cells s |\<subseteq>| cells other_sentence then True else False)"

definition infer_new_sentance :: "sentence \<Rightarrow> sentence \<Rightarrow> sentence" where
  "infer_new_sentance s other_sentence =
     (let different_cells = cells other_sentence |-| cells s;
          different_count = count other_sentence - count s
      in Sentence different_cells different_count)"

text \<open>Python's \<^verbatim>\<open>range(a, b)\<close> over integers.\<close>

definition range_py :: "int \<Rightarrow> int \<Rightarrow> int list" where
  "range_py a b = [a..b - 1]"

text \<open>
  \<^verbatim>\<open>Minesweeper.nearby_mines\<close>, the oracle that produces the counts. The board is given by
  its height, its width and its set of mines: \<^verbatim>\<open>board[i][j]\<close> is true exactly for the cells
  of \<^verbatim>\<open>self.mines\<close>, and it is read only at cells in bounds.
\<close>

definition nearby_mines :: "int \<Rightarrow> int \<Rightarrow> cell fset \<Rightarrow> cell \<Rightarrow> int" where
  "nearby_mines h w board cell =
     foldl (\<lambda>cnt (i, j).
              if (i, j) = cell then cnt
              else if 0 \<le> i \<and> i < h \<and> 0 \<le> j \<and> j < w
                   then (if (i, j) |\<in>| board then cnt + 1 else cnt)
                   else cnt)
       0
       (List.product (range_py (fst cell - 1) (fst cell + 2))
                     (range_py (snd cell - 1) (snd cell + 2)))"

record ai =
  height :: int
  width :: int
  moves_made :: "cell fset"
  mines :: "cell fset"
  safes :: "cell fset"
  knowledge :: "sentence list"

text \<open>\<^verbatim>\<open>MinesweeperAI.__init__\<close>.\<close>

definition MinesweeperAI :: "int \<Rightarrow> int \<Rightarrow> ai" where
  "MinesweeperAI h w =
     \<lparr>height = h, width = w, moves_made = {||}, mines = {||}, safes = {||}, knowledge = []\<rparr>"

definition mark_mine :: "cell \<Rightarrow> ai \<Rightarrow> ai" where
  "mark_mine c st =
     st\<lparr>mines := finsert c (mines st), knowledge := map (sentence_mark_mine c) (knowledge st)\<rparr>"

definition mark_safe :: "cell \<Rightarrow> ai \<Rightarrow> ai" where
  "mark_safe c st =
     st\<lparr>safes := finsert c (safes st), knowledge := map (sentence_mark_safe c) (knowledge st)\<rparr>"

section \<open>Recording an observation\<close>

text \<open>
  The first loop nest of \<^verbatim>\<open>add_knowledge\<close>: it walks the clipped 3x3 window around the
  cell, records the move and marks the cell safe when it meets the cell itself, and
  collects every other cell of the window.
\<close>

definition collect_neighbours :: "cell \<Rightarrow> ai \<Rightarrow> ai \<times> cell fset" where
  "collect_neighbours cell st =
     foldl (\<lambda>(st, neibouring_cells) ij.
              if ij = cell
              then (mark_safe cell (st\<lparr>moves_made := finsert cell (moves_made st)\<rparr>),
                    neibouring_cells)
              else (st, finsert ij neibouring_cells))
       (st, {||})
       (List.product (range_py (max 0 (fst cell - 1)) (min (fst cell + 2) (height st)))
                     (range_py (max 0 (snd cell - 1)) (min (snd cell + 2) (width st))))"

text \<open>
  A Python \<^verbatim>\<open>for\<close> over a set visits its elements once each, in an order the language does
  not fix; the model visits them in increasing order. The loops below only apply marking
  operations, whose combined effect does not depend on the order (see
  \<open>foldl_sentence_mark_mine\<close>, \<open>foldl_sentence_mark_safe\<close>, \<open>foldl_mark_safe\<close> and
  \<open>foldl_mark_mine\<close>).
\<close>

definition build_sentence :: "cell fset \<Rightarrow> int \<Rightarrow> ai \<Rightarrow> sentence" where
  "build_sentence neibouring_cells n st =
     (let new_sentence = Sentence neibouring_cells n;
          new_sentence = foldl (\<lambda>s mine. sentence_mark_mine mine s) new_sentence
                           (sorted_list_of_fset (mines st));
          new_sentence = foldl (\<lambda>s safe. sentence_mark_safe safe s) new_sentence
                           (sorted_list_of_fset (safes st))
      in new_sentence)"

text \<open>The state of \<^verbatim>\<open>add_knowledge\<close> when it reaches its \<^verbatim>\<open>while\<close> loop.\<close>

definition observe :: "cell \<Rightarrow> int \<Rightarrow> ai \<Rightarrow> ai" where
  "observe cell n st =
     (let (st1, neibouring_cells) = collect_neighbours cell st;
          new_sentence = build_sentence neibouring_cells n st1
      in st1\<lparr>knowledge := knowledge st1 @ [new_sentence]\<rparr>)"

section \<open>The inference loop\<close>

text \<open>\<^verbatim>\<open>list.remove(x)\<close>: drops the first element equal to \<^verbatim>\<open>x\<close>, raises when there is none.\<close>

definition list_remove :: "'a \<Rightarrow> 'a list \<Rightarrow> error + 'a list" where
  "list_remove x xs = (if x \<in> set xs then Inr (remove1 x xs) else Inl ValueError)"

text \<open>
  The subset pass. The inner loop runs over a snapshot of the knowledge list taken when it
  starts, the outer loop over a snapshot taken before the pass; both append to and remove
  from the live list.
\<close>

fun resolve_inner :: "sentence \<Rightarrow> sentence list \<Rightarrow> sentence list \<Rightarrow> error + sentence list" where
  "resolve_inner sentence_1 [] kb = Inr kb"
| "resolve_inner sentence_1 (sentence_2 # rest) kb =
     (if is_subset sentence_1 sentence_2
      then (case list_remove sentence_2 (kb @ [infer_new_sentance sentence_1 sentence_2]) of
              Inl e \<Rightarrow> Inl e
            | Inr kb' \<Rightarrow> resolve_inner sentence_1 rest kb')
      else resolve_inner sentence_1 rest kb)"

fun resolve_outer :: "sentence list \<Rightarrow> sentence list \<Rightarrow> error + sentence list" where
  "resolve_outer [] kb = Inr kb"
| "resolve_outer (sentence_1 # rest) kb =
     (case resolve_inner sentence_1 kb kb of
        Inl e \<Rightarrow> Inl e
      | Inr kb' \<Rightarrow> resolve_outer rest kb')"

text \<open>
  The marking pass, for the sentence at index \<open>i\<close>: the cells of a snapshot of
  \<^verbatim>\<open>known_safes()\<close> are marked safe, then those of a snapshot of \<^verbatim>\<open>known_mines()\<close>, taken
  after the first marking, are marked as mines.
\<close>

definition mark_from :: "nat \<Rightarrow> ai \<Rightarrow> ai" where
  "mark_from i st =
     (let st1 = foldl (\<lambda>st c. mark_safe c st) st
                  (sorted_list_of_fset (known_safes (knowledge st ! i)));
          st2 = foldl (\<lambda>st c. mark_mine c st) st1
                  (sorted_list_of_fset (known_mines (knowledge st1 ! i)))
      in st2)"

subsection \<open>Basic facts about marking\<close>

lemma cells_sentence_mark_safe [simp]: "cells (sentence_mark_safe c s) = cells s |-| {|c|}"
  by (simp add: sentence_mark_safe_def)

lemma count_sentence_mark_safe [simp]: "count (sentence_mark_safe c s) = count s"
  by (simp add: sentence_mark_safe_def)

lemma cells_sentence_mark_mine [simp]: "cells (sentence_mark_mine c s) = cells s |-| {|c|}"
  by (simp add: sentence_mark_mine_def)

lemma count_sentence_mark_mine [simp]:
  "count (sentence_mark_mine c s) = (if c |\<in>| cells s then count s - 1 else count s)"
  by (simp add: sentence_mark_mine_def)

lemma mark_safe_fields [simp]:
  "height (mark_safe c st) = height st" "width (mark_safe c st) = width st"
  "moves_made (mark_safe c st) = moves_made st" "mines (mark_safe c st) = mines st"
  "safes (mark_safe c st) = finsert c (safes st)"
  "knowledge (mark_safe c st) = map (sentence_mark_safe c) (knowledge st)"
  by (simp_all add: mark_safe_def)

lemma mark_mine_fields [simp]:
  "height (mark_mine c st) = height st" "width (mark_mine c st) = width st"
  "moves_made (mark_mine c st) = moves_made st" "safes (mark_mine c st) = safes st"
  "mines (mark_mine c st) = finsert c (mines st)"
  "knowledge (mark_mine c st) = map (sentence_mark_mine c) (knowledge st)"
  by (simp_all add: mark_mine_def)

lemma length_foldl_mark_safe [simp]:
  "length (knowledge (foldl (\<lambda>st c. mark_safe c st) st xs)) = length (knowledge st)"
  by (induction xs arbitrary: st) simp_all

lemma length_foldl_mark_mine [simp]:
  "length (knowledge (foldl (\<lambda>st c. mark_mine c st) st xs)) = length (knowledge st)"
  by (induction xs arbitrary: st) simp_all

lemma length_mark_from [simp]: "length (knowledge (mark_from i st)) = length (knowledge st)"
  by (simp add: mark_from_def Let_def)

function mark_known :: "nat \<Rightarrow> ai \<Rightarrow> ai" where
  "mark_known i st =
     (if i < length (knowledge st) then mark_known (i + 1) (mark_from i st) else st)"
  by pat_completeness auto
termination
  by (relation "measure (\<lambda>(i, st). length (knowledge st) - i)") auto

lemma list_remove_Inr: "list_remove x xs = Inr ys \<longleftrightarrow> x \<in> set xs \<and> ys = remove1 x xs"
  by (auto simp: list_remove_def)

function remove_empty :: "nat \<Rightarrow> sentence list \<Rightarrow> error + sentence list" where
  "remove_empty i kb =
     (if i < length kb
      then (if cells (kb ! i) = {||}
            then (case list_remove (kb ! i) kb of
                    Inl e \<Rightarrow> Inl e
                  | Inr kb' \<Rightarrow> remove_empty (i + 1) kb')
            else remove_empty (i + 1) kb)
      else Inr kb)"
  by pat_completeness auto
termination
  by (relation "measure (\<lambda>(i, kb). length kb - i)") (auto simp: list_remove_Inr length_remove1)


subsection \<open>A measure for the inference loop\<close>

text \<open>The sum of the sizes of the cell sets of the sentences of a knowledge list.\<close>

definition total_cells :: "sentence list \<Rightarrow> nat" where
  "total_cells kb = sum_list (map (\<lambda>s. fcard (cells s)) kb)"

lemma total_cells_simps [simp]:
  "total_cells [] = 0"
  "total_cells (s # kb) = fcard (cells s) + total_cells kb"
  "total_cells (kb @ kb') = total_cells kb + total_cells kb'"
  by (simp_all add: total_cells_def)

lemma total_cells_remove1:
  "x \<in> set xs \<Longrightarrow> total_cells (remove1 x xs) + fcard (cells x) = total_cells xs"
  by (induction xs) auto

lemma fcard_infer_new_sentance:
  "is_subset s1 s2 \<Longrightarrow>
     fcard (cells (infer_new_sentance s1 s2)) + fcard (cells s1) = fcard (cells s2)"
  unfolding is_subset_def infer_new_sentance_def Sentence_def Let_def
  by (auto simp: fcard.rep_eq less_eq_fset.rep_eq card_Diff_subset card_mono split: if_splits)

lemma is_subset_nonempty: "is_subset s1 s2 \<Longrightarrow> cells s2 \<noteq> {||}"
  by (auto simp: is_subset_def split: if_splits)

text \<open>One step of the inner loop.\<close>

lemma resolve_step:
  assumes "is_subset s1 s2" "list_remove s2 (kb @ [infer_new_sentance s1 s2]) = Inr kb'"
  shows "length kb' = length kb"
    and "total_cells kb' + fcard (cells s1) = total_cells kb"
    and "mset kb' = mset kb + {#infer_new_sentance s1 s2#} - {#s2#}"
    and "(\<exists>s\<in>set kb. cells s = {||}) \<Longrightarrow> (\<exists>s\<in>set kb'. cells s = {||})"
proof -
  let ?n = "infer_new_sentance s1 s2"
  from assms(2) have in': "s2 \<in> set (kb @ [?n])" and kb': "kb' = remove1 s2 (kb @ [?n])"
    by (simp_all add: list_remove_Inr)
  show "length kb' = length kb" using in' kb' by (simp add: length_remove1)
  have "total_cells kb' + fcard (cells s2) = total_cells kb + fcard (cells ?n)"
    using total_cells_remove1 [OF in'] kb' by simp
  with fcard_infer_new_sentance [OF assms(1)]
  show "total_cells kb' + fcard (cells s1) = total_cells kb" by simp
  show "mset kb' = mset kb + {#?n#} - {#s2#}" using kb' by simp
  show "(\<exists>s\<in>set kb'. cells s = {||})" if "\<exists>s\<in>set kb. cells s = {||}"
  proof -
    from that obtain s where s: "s \<in> set kb" "cells s = {||}" by blast
    with is_subset_nonempty [OF assms(1)] have "s \<noteq> s2" by auto
    with s kb' show ?thesis by (auto intro!: bexI [of _ s])
  qed
qed

lemma mset_rest_remove1:
  assumes "add_mset s2 (mset rest) \<subseteq># mset kb"
  shows "mset rest \<subseteq># mset (remove1 s2 (kb @ [n]))"
proof -
  have "Multiset.count (mset rest) a \<le> Multiset.count (mset (remove1 s2 (kb @ [n]))) a" for a
    using mset_subset_eq_count [OF assms, of a] by (auto split: if_splits)
  then show ?thesis by (rule mset_subset_eqI)
qed

lemma mset_rest_keep:
  assumes "add_mset s2 (mset rest) \<subseteq># mset kb"
  shows "mset rest \<subseteq># mset kb"
proof -
  have "Multiset.count (mset rest) a \<le> Multiset.count (mset kb) a" for a
    using mset_subset_eq_count [OF assms, of a] by (auto split: if_splits)
  then show ?thesis by (rule mset_subset_eqI)
qed

lemma resolve_inner_returns:
  "mset cp \<subseteq># mset kb \<Longrightarrow> \<exists>kb'. resolve_inner s1 cp kb = Inr kb'"
proof (induction cp arbitrary: kb)
  case Nil
  then show ?case by simp
next
  case (Cons s2 rest)
  from Cons.prems have sub: "add_mset s2 (mset rest) \<subseteq># mset kb" by simp
  show ?case
  proof (cases "is_subset s1 s2")
    case False
    from Cons.IH [OF mset_rest_keep [OF sub]] False show ?thesis by simp
  next
    case True
    let ?n = "infer_new_sentance s1 s2"
    from sub have "s2 \<in># mset kb" by (simp add: insert_subset_eq_iff)
    then have r: "list_remove s2 (kb @ [?n]) = Inr (remove1 s2 (kb @ [?n]))"
      by (simp add: list_remove_def)
    from Cons.IH [OF mset_rest_remove1 [OF sub, of ?n]] obtain kb'
      where "resolve_inner s1 rest (remove1 s2 (kb @ [?n])) = Inr kb'" by blast
    with True r have "resolve_inner s1 (s2 # rest) kb = Inr kb'" by simp
    then show ?thesis by blast
  qed
qed

lemma resolve_inner_ConsE:
  assumes "resolve_inner s1 (s2 # rest) kb = Inr kb'"
  obtains (skip) "\<not> is_subset s1 s2" "resolve_inner s1 rest kb = Inr kb'"
  | (hit) kb1 where "is_subset s1 s2"
      "list_remove s2 (kb @ [infer_new_sentance s1 s2]) = Inr kb1"
      "resolve_inner s1 rest kb1 = Inr kb'"
proof (cases "is_subset s1 s2")
  case False
  with assms skip show ?thesis by simp
next
  case True
  show ?thesis
  proof (cases "list_remove s2 (kb @ [infer_new_sentance s1 s2])")
    case (Inl e)
    with True assms show ?thesis by simp
  next
    case (Inr kb1)
    with True assms hit show ?thesis by simp
  qed
qed

lemma resolve_inner_length:
  "resolve_inner s1 cp kb = Inr kb' \<Longrightarrow> length kb' = length kb"
proof (induction cp arbitrary: kb)
  case Nil
  then show ?case by simp
next
  case (Cons s2 rest)
  from Cons.prems show ?case
  proof (cases rule: resolve_inner_ConsE)
    case skip
    then show ?thesis using Cons.IH by simp
  next
    case (hit kb1)
    from Cons.IH [OF hit(3)] resolve_step(1) [OF hit(1,2)] show ?thesis by simp
  qed
qed

lemma resolve_inner_total_le:
  "resolve_inner s1 cp kb = Inr kb' \<Longrightarrow> total_cells kb' \<le> total_cells kb"
proof (induction cp arbitrary: kb)
  case Nil
  then show ?case by simp
next
  case (Cons s2 rest)
  from Cons.prems show ?case
  proof (cases rule: resolve_inner_ConsE)
    case skip
    then show ?thesis using Cons.IH by simp
  next
    case (hit kb1)
    from Cons.IH [OF hit(3)] resolve_step(2) [OF hit(1,2)] show ?thesis by linarith
  qed
qed

lemma resolve_inner_keeps_empty:
  "resolve_inner s1 cp kb = Inr kb' \<Longrightarrow> \<exists>s\<in>set kb. cells s = {||} \<Longrightarrow>
     \<exists>s\<in>set kb'. cells s = {||}"
proof (induction cp arbitrary: kb)
  case Nil
  then show ?case by simp
next
  case (Cons s2 rest)
  from Cons.prems(1) show ?case
  proof (cases rule: resolve_inner_ConsE)
    case skip
    from Cons.IH [OF skip(2) Cons.prems(2)] show ?thesis .
  next
    case (hit kb1)
    from resolve_step(4) [OF hit(1,2) Cons.prems(2)] have "\<exists>s\<in>set kb1. cells s = {||}" .
    from Cons.IH [OF hit(3) this] show ?thesis .
  qed
qed

lemma fcard_pos: "A \<noteq> {||} \<Longrightarrow> 0 < fcard A"
  by (cases "fcard A") simp_all

lemma resolve_inner_total_less:
  "resolve_inner s1 cp kb = Inr kb' \<Longrightarrow> cells s1 \<noteq> {||} \<Longrightarrow>
     \<exists>s2\<in>set cp. is_subset s1 s2 \<Longrightarrow> total_cells kb' < total_cells kb"
proof (induction cp arbitrary: kb)
  case Nil
  then show ?case by simp
next
  case (Cons s2 rest)
  from Cons.prems(1) show ?case
  proof (cases rule: resolve_inner_ConsE)
    case skip
    with Cons.prems(3) have "\<exists>s2\<in>set rest. is_subset s1 s2" by simp
    from Cons.IH [OF skip(2) Cons.prems(2) this] show ?thesis .
  next
    case (hit kb1)
    from resolve_inner_total_le [OF hit(3)] resolve_step(2) [OF hit(1,2)]
      fcard_pos [OF Cons.prems(2)]
    show ?thesis by linarith
  qed
qed

lemma resolve_outer_returns: "\<exists>kb'. resolve_outer xs kb = Inr kb'"
proof (induction xs arbitrary: kb)
  case Nil
  then show ?case by simp
next
  case (Cons s1 rest)
  have "mset kb \<subseteq># mset kb" by simp
  from resolve_inner_returns [OF this] obtain kb1 where i: "resolve_inner s1 kb kb = Inr kb1"
    by blast
  from Cons.IH [of kb1] obtain kb' where "resolve_outer rest kb1 = Inr kb'" by blast
  with i have "resolve_outer (s1 # rest) kb = Inr kb'" by simp
  then show ?case by blast
qed

lemma resolve_inner_noop:
  "\<forall>s2\<in>set cp. \<not> is_subset s1 s2 \<Longrightarrow> resolve_inner s1 cp kb = Inr kb"
  by (induction cp) simp_all

lemma resolve_outer_ConsE:
  assumes "resolve_outer (s1 # rest) kb = Inr kb'"
  obtains kb1 where "resolve_inner s1 kb kb = Inr kb1" "resolve_outer rest kb1 = Inr kb'"
proof (cases "resolve_inner s1 kb kb")
  case (Inl e)
  with assms show ?thesis by simp
next
  case (Inr kb1)
  with assms that show ?thesis by simp
qed

lemma resolve_outer_length:
  "resolve_outer xs kb = Inr kb' \<Longrightarrow> length kb' = length kb"
proof (induction xs arbitrary: kb)
  case Nil
  then show ?case by simp
next
  case (Cons s1 rest)
  from Cons.prems obtain kb1 where i: "resolve_inner s1 kb kb = Inr kb1"
    and o: "resolve_outer rest kb1 = Inr kb'"
    by (rule resolve_outer_ConsE)
  from Cons.IH [OF o] resolve_inner_length [OF i] show ?case by simp
qed

lemma resolve_outer_total_le:
  "resolve_outer xs kb = Inr kb' \<Longrightarrow> total_cells kb' \<le> total_cells kb"
proof (induction xs arbitrary: kb)
  case Nil
  then show ?case by simp
next
  case (Cons s1 rest)
  from Cons.prems obtain kb1 where i: "resolve_inner s1 kb kb = Inr kb1"
    and o: "resolve_outer rest kb1 = Inr kb'"
    by (rule resolve_outer_ConsE)
  from Cons.IH [OF o] resolve_inner_total_le [OF i] show ?case by linarith
qed

lemma resolve_outer_keeps_empty:
  "resolve_outer xs kb = Inr kb' \<Longrightarrow> \<exists>s\<in>set kb. cells s = {||} \<Longrightarrow>
     \<exists>s\<in>set kb'. cells s = {||}"
proof (induction xs arbitrary: kb)
  case Nil
  then show ?case by simp
next
  case (Cons s1 rest)
  from Cons.prems(1) obtain kb1 where i: "resolve_inner s1 kb kb = Inr kb1"
    and o: "resolve_outer rest kb1 = Inr kb'"
    by (rule resolve_outer_ConsE)
  from Cons.IH [OF o resolve_inner_keeps_empty [OF i Cons.prems(2)]] show ?case .
qed

lemma resolve_outer_noop:
  "\<forall>s1\<in>set xs. \<forall>s2\<in>set kb. \<not> is_subset s1 s2 \<Longrightarrow> resolve_outer xs kb = Inr kb"
  by (induction xs) (simp_all add: resolve_inner_noop)

lemma resolve_outer_total_less:
  "resolve_outer xs kb = Inr kb' \<Longrightarrow> \<forall>s\<in>set xs. cells s \<noteq> {||} \<Longrightarrow>
     \<exists>s1\<in>set xs. \<exists>s2\<in>set kb. is_subset s1 s2 \<Longrightarrow> total_cells kb' < total_cells kb"
proof (induction xs arbitrary: kb)
  case Nil
  then show ?case by simp
next
  case (Cons s1 rest)
  from Cons.prems(1) obtain kb1 where i: "resolve_inner s1 kb kb = Inr kb1"
    and o: "resolve_outer rest kb1 = Inr kb'"
    by (rule resolve_outer_ConsE)
  from Cons.prems(2) have ne: "cells s1 \<noteq> {||}" and ner: "\<forall>s\<in>set rest. cells s \<noteq> {||}"
    by simp_all
  show ?case
  proof (cases "\<exists>s2\<in>set kb. is_subset s1 s2")
    case True
    from resolve_inner_total_less [OF i ne True] resolve_outer_total_le [OF o]
    show ?thesis by linarith
  next
    case False
    then have "resolve_inner s1 kb kb = Inr kb" by (simp add: resolve_inner_noop)
    with i have eq: "kb1 = kb" by simp
    from False Cons.prems(3) have "\<exists>s1\<in>set rest. \<exists>s2\<in>set kb. is_subset s1 s2" by simp
    from Cons.IH [OF o [unfolded eq] ner this] show ?thesis .
  qed
qed

declare mark_known.simps [simp del] remove_empty.simps [simp del]

text \<open>Marking leaves a sentence as it is or takes cells away from it.\<close>

definition shrunk :: "sentence \<Rightarrow> sentence \<Rightarrow> bool" where
  "shrunk a b \<longleftrightarrow> b = a \<or> cells b |\<subset>| cells a"

lemma shrunk_refl: "shrunk a a"
  by (simp add: shrunk_def)

lemma shrunk_trans: "shrunk a b \<Longrightarrow> shrunk b c \<Longrightarrow> shrunk a c"
  unfolding shrunk_def by auto

lemma shrunk_sentence_mark_safe: "shrunk s (sentence_mark_safe c s)"
  unfolding shrunk_def sentence_mark_safe_def by auto

lemma shrunk_sentence_mark_mine: "shrunk s (sentence_mark_mine c s)"
  unfolding shrunk_def sentence_mark_mine_def by auto

lemma shrunk_all_refl: "list_all2 shrunk kb kb"
  by (simp add: list_all2_refl shrunk_refl)

lemma shrunk_all_trans:
  "list_all2 shrunk kb kb' \<Longrightarrow> list_all2 shrunk kb' kb'' \<Longrightarrow> list_all2 shrunk kb kb''"
  by (rule list_all2_trans [of shrunk shrunk shrunk]) (rule shrunk_trans)

lemma shrunk_all_map: "(\<And>s. shrunk s (f s)) \<Longrightarrow> list_all2 shrunk kb (map f kb)"
  by (simp add: list_all2_conv_all_nth)

lemma shrunk_all_total:
  "list_all2 shrunk kb kb' \<Longrightarrow>
     total_cells kb' \<le> total_cells kb \<and> (kb' \<noteq> kb \<longrightarrow> total_cells kb' < total_cells kb)"
proof (induction rule: list_all2_induct)
  case Nil
  then show ?case by simp
next
  case (Cons a kb b kb')
  from Cons.hyps(1) have "b = a \<or> fcard (cells b) < fcard (cells a)"
    unfolding shrunk_def by (auto intro: pfsubset_fcard_mono)
  with Cons.IH show ?case by auto
qed

lemma shrunk_all_foldl_mark_safe:
  "list_all2 shrunk (knowledge st) (knowledge (foldl (\<lambda>st c. mark_safe c st) st xs))"
proof (induction xs arbitrary: st)
  case Nil
  show ?case by (simp add: shrunk_all_refl)
next
  case (Cons c xs)
  have "list_all2 shrunk (knowledge st) (knowledge (mark_safe c st))"
    by (simp add: shrunk_all_map shrunk_sentence_mark_safe)
  from shrunk_all_trans [OF this Cons.IH [of "mark_safe c st"]] show ?case by simp
qed

lemma shrunk_all_foldl_mark_mine:
  "list_all2 shrunk (knowledge st) (knowledge (foldl (\<lambda>st c. mark_mine c st) st xs))"
proof (induction xs arbitrary: st)
  case Nil
  show ?case by (simp add: shrunk_all_refl)
next
  case (Cons c xs)
  have "list_all2 shrunk (knowledge st) (knowledge (mark_mine c st))"
    by (simp add: shrunk_all_map shrunk_sentence_mark_mine)
  from shrunk_all_trans [OF this Cons.IH [of "mark_mine c st"]] show ?case by simp
qed

lemma shrunk_all_mark_from:
  "list_all2 shrunk (knowledge st) (knowledge (mark_from i st))"
  unfolding mark_from_def Let_def
  by (rule shrunk_all_trans [OF shrunk_all_foldl_mark_safe shrunk_all_foldl_mark_mine])

text \<open>Closed forms of the marking loops over a list of cells.\<close>

lemma cells_foldl_sentence_mark_safe:
  "cells (foldl (\<lambda>s c. sentence_mark_safe c s) s xs) = cells s |-| fset_of_list xs"
  by (induction xs arbitrary: s) auto

lemma count_foldl_sentence_mark_safe:
  "count (foldl (\<lambda>s c. sentence_mark_safe c s) s xs) = count s"
  by (induction xs arbitrary: s) auto

lemma cells_foldl_sentence_mark_mine:
  "cells (foldl (\<lambda>s c. sentence_mark_mine c s) s xs) = cells s |-| fset_of_list xs"
  by (induction xs arbitrary: s) auto

lemma knowledge_foldl_mark_safe:
  "knowledge (foldl (\<lambda>st c. mark_safe c st) st xs) =
     map (\<lambda>s. foldl (\<lambda>s c. sentence_mark_safe c s) s xs) (knowledge st)"
  by (induction xs arbitrary: st) (simp_all add: comp_def)

lemma knowledge_foldl_mark_mine:
  "knowledge (foldl (\<lambda>st c. mark_mine c st) st xs) =
     map (\<lambda>s. foldl (\<lambda>s c. sentence_mark_mine c s) s xs) (knowledge st)"
  by (induction xs arbitrary: st) (simp_all add: comp_def)

text \<open>The sentences that \<^verbatim>\<open>inference_2\<close> and \<^verbatim>\<open>inference_3\<close> select.\<close>

definition trigger :: "sentence \<Rightarrow> bool" where
  "trigger s \<longleftrightarrow> known_safes s \<noteq> {||} \<or> known_mines s \<noteq> {||}"

lemma mark_from_trigger:
  assumes "i < length (knowledge st)" "trigger (knowledge st ! i)"
  shows "cells (knowledge (mark_from i st) ! i) = {||}" "cells (knowledge st ! i) \<noteq> {||}"
proof -
  let ?s = "knowledge st ! i"
  from assms(2) show ne: "cells ?s \<noteq> {||}"
    by (auto simp: trigger_def known_safes_def known_mines_def split: if_splits)
  let ?st1 = "foldl (\<lambda>st c. mark_safe c st) st (sorted_list_of_fset (known_safes ?s))"
  let ?s1 = "knowledge ?st1 ! i"
  have len1: "i < length (knowledge ?st1)" using assms(1) by simp
  have c1: "cells ?s1 = cells ?s |-| known_safes ?s"
    using assms(1) by (simp add: knowledge_foldl_mark_safe cells_foldl_sentence_mark_safe)
  have n1: "count ?s1 = count ?s"
    using assms(1) by (simp add: knowledge_foldl_mark_safe count_foldl_sentence_mark_safe)
  have c2: "cells (knowledge (mark_from i st) ! i) = cells ?s1 |-| known_mines ?s1"
    using len1 unfolding mark_from_def Let_def
    by (simp add: knowledge_foldl_mark_mine cells_foldl_sentence_mark_mine)
  show "cells (knowledge (mark_from i st) ! i) = {||}"
  proof (cases "count ?s = 0")
    case True
    then have "cells ?s1 = {||}" using c1 by (simp add: known_safes_def)
    with c2 show ?thesis by simp
  next
    case False
    with assms(2) have "int (fcard (cells ?s)) = count ?s"
      by (auto simp: trigger_def known_safes_def known_mines_def split: if_splits)
    moreover from False have "cells ?s1 = cells ?s" using c1 by (simp add: known_safes_def)
    ultimately have "known_mines ?s1 = cells ?s1" using n1 by (simp add: known_mines_def)
    with c2 show ?thesis by simp
  qed
qed

lemma mark_known_shrunk:
  "list_all2 shrunk (knowledge st) (knowledge (mark_known i st))"
proof (induction i st rule: mark_known.induct)
  case (1 i st)
  show ?case
  proof (cases "i < length (knowledge st)")
    case True
    from shrunk_all_trans [OF shrunk_all_mark_from "1.IH" [OF True]] True
    show ?thesis by (subst mark_known.simps) simp
  next
    case False
    then show ?thesis by (subst mark_known.simps) (simp add: shrunk_all_refl)
  qed
qed

lemma mark_known_total_less:
  "\<exists>k. i \<le> k \<and> k < length (knowledge st) \<and> trigger (knowledge st ! k) \<Longrightarrow>
     total_cells (knowledge (mark_known i st)) < total_cells (knowledge st)"
proof (induction i st rule: mark_known.induct)
  case (1 i st)
  from "1.prems" obtain k where k: "i \<le> k" "k < length (knowledge st)"
    "trigger (knowledge st ! k)" by blast
  then have lt: "i < length (knowledge st)" by simp
  let ?st' = "mark_from i st"
  have unf: "mark_known i st = mark_known (i + 1) ?st'"
    using lt by (subst mark_known.simps) simp
  have le: "total_cells (knowledge (mark_known (i + 1) ?st')) \<le> total_cells (knowledge ?st')"
    using shrunk_all_total [OF mark_known_shrunk] by blast
  have step: "total_cells (knowledge ?st') \<le> total_cells (knowledge st)"
    "knowledge ?st' \<noteq> knowledge st \<Longrightarrow> total_cells (knowledge ?st') < total_cells (knowledge st)"
    using shrunk_all_total [OF shrunk_all_mark_from [of st i]] by blast+
  show ?case
  proof (cases "knowledge ?st' = knowledge st")
    case False
    from step(2) [OF False] le unf show ?thesis by simp
  next
    case True
    have "k \<noteq> i"
    proof
      assume "k = i"
      with mark_from_trigger [OF lt] k(3) True show False by metis
    qed
    with k(1) have "i + 1 \<le> k" by simp
    with k(2,3) True
    have "\<exists>k. i + 1 \<le> k \<and> k < length (knowledge ?st') \<and> trigger (knowledge ?st' ! k)"
      by auto
    from "1.IH" [OF lt this] step(1) unf show ?thesis by simp
  qed
qed

lemma list_remove_nth: "i < length kb \<Longrightarrow> list_remove (kb ! i) kb = Inr (remove1 (kb ! i) kb)"
  by (simp add: list_remove_def)

lemma remove_empty_step:
  "i < length kb \<Longrightarrow> cells (kb ! i) = {||} \<Longrightarrow>
     remove_empty i kb = remove_empty (i + 1) (remove1 (kb ! i) kb)"
  by (subst remove_empty.simps) (simp add: list_remove_nth)

lemma remove_empty_skip:
  "i < length kb \<Longrightarrow> cells (kb ! i) \<noteq> {||} \<Longrightarrow> remove_empty i kb = remove_empty (i + 1) kb"
  by (subst remove_empty.simps) simp

lemma remove_empty_stop: "\<not> i < length kb \<Longrightarrow> remove_empty i kb = Inr kb"
  by (subst remove_empty.simps) simp

text \<open>
  The clean-up loop written as a total function on lists: in this form the result is
  visibly a sublist, with the same sum of sizes.
\<close>

lemma remove_empty_returns:
  "\<exists>kb'. remove_empty i kb = Inr kb' \<and> set kb' \<subseteq> set kb \<and> length kb' \<le> length kb \<and>
     total_cells kb' = total_cells kb"
proof (induction i kb rule: remove_empty.induct)
  case (1 i kb)
  show ?case
  proof (cases "i < length kb")
    case False
    then show ?thesis by (simp add: remove_empty_stop)
  next
    case lt: True
    show ?thesis
    proof (cases "cells (kb ! i) = {||}")
      case False
      from "1.IH"(2) [OF lt False] remove_empty_skip [OF lt False] show ?thesis by simp
    next
      case True
      let ?kb1 = "remove1 (kb ! i) kb"
      from "1.IH"(1) [OF lt True list_remove_nth [OF lt]] obtain kb' where
        r: "remove_empty (i + 1) ?kb1 = Inr kb'" "set kb' \<subseteq> set ?kb1"
        "length kb' \<le> length ?kb1" "total_cells kb' = total_cells ?kb1"
        by blast
      have "set ?kb1 \<subseteq> set kb" by (rule set_remove1_subset)
      moreover have "length ?kb1 \<le> length kb" by (simp add: length_remove1)
      moreover have "total_cells ?kb1 = total_cells kb"
        using total_cells_remove1 [of "kb ! i" kb] lt True by (simp add: fcard_fempty)
      ultimately have "remove_empty i kb = Inr kb' \<and> set kb' \<subseteq> set kb \<and>
        length kb' \<le> length kb \<and> total_cells kb' = total_cells kb"
        using r remove_empty_step [OF lt True] by auto
      then show ?thesis by blast
    qed
  qed
qed

lemma remove_empty_length_less:
  "remove_empty i kb = Inr kb' \<Longrightarrow> \<exists>k. i \<le> k \<and> k < length kb \<and> cells (kb ! k) = {||} \<Longrightarrow>
     length kb' < length kb"
proof (induction i kb rule: remove_empty.induct)
  case (1 i kb)
  from "1.prems"(2) obtain k where k: "i \<le> k" "k < length kb" "cells (kb ! k) = {||}"
    by blast
  then have lt: "i < length kb" by simp
  show ?case
  proof (cases "cells (kb ! i) = {||}")
    case True
    let ?kb1 = "remove1 (kb ! i) kb"
    from "1.prems"(1) remove_empty_step [OF lt True]
    have r: "remove_empty (i + 1) ?kb1 = Inr kb'" by simp
    from remove_empty_returns [of "i + 1" ?kb1] r have "length kb' \<le> length ?kb1" by simp
    moreover have "length ?kb1 < length kb" using lt by (simp add: length_remove1)
    ultimately show ?thesis by simp
  next
    case False
    from "1.prems"(1) remove_empty_skip [OF lt False]
    have r: "remove_empty (i + 1) kb = Inr kb'" by simp
    from False k have "k \<noteq> i" by auto
    with k have "i + 1 \<le> k \<and> k < length kb \<and> cells (kb ! k) = {||}" by simp
    then have "\<exists>k. i + 1 \<le> k \<and> k < length kb \<and> cells (kb ! k) = {||}" by (rule exI)
    from "1.IH"(2) [OF lt False r this] show ?thesis .
  qed
qed

definition inference_1 :: "ai \<Rightarrow> sentence list" where
  "inference_1 st =
     [infer_new_sentance sentence_1 sentence_2.
        sentence_1 \<leftarrow> knowledge st, sentence_2 \<leftarrow> knowledge st, is_subset sentence_1 sentence_2]"

definition inference_2 :: "ai \<Rightarrow> sentence list" where
  "inference_2 st = [sentence \<leftarrow> knowledge st. known_safes sentence \<noteq> {||}]"

definition inference_3 :: "ai \<Rightarrow> sentence list" where
  "inference_3 st = [sentence \<leftarrow> knowledge st. known_mines sentence \<noteq> {||}]"

definition infer_pass :: "ai \<Rightarrow> error + ai" where
  "infer_pass st =
     (case resolve_outer (knowledge st) (knowledge st) of
        Inl e \<Rightarrow> Inl e
      | Inr kb1 \<Rightarrow>
          (let st2 = mark_known 0 (st\<lparr>knowledge := kb1\<rparr>)
           in case remove_empty 0 (knowledge st2) of
                Inl e \<Rightarrow> Inl e
              | Inr kb3 \<Rightarrow> Inr (st2\<lparr>knowledge := kb3\<rparr>)))"

lemma inference_1_iff:
  "inference_1 st \<noteq> [] \<longleftrightarrow> (\<exists>s1\<in>set (knowledge st). \<exists>s2\<in>set (knowledge st). is_subset s1 s2)"
  by (auto simp: inference_1_def filter_empty_conv)

lemma inference_23_iff:
  "inference_2 st \<noteq> [] \<or> inference_3 st \<noteq> [] \<longleftrightarrow> (\<exists>s\<in>set (knowledge st). trigger s)"
  by (auto simp: inference_2_def inference_3_def trigger_def filter_empty_conv)

lemma infer_pass_returns:
  obtains kb1 kb3 where
    "resolve_outer (knowledge st) (knowledge st) = Inr kb1"
    "remove_empty 0 (knowledge (mark_known 0 (st\<lparr>knowledge := kb1\<rparr>))) = Inr kb3"
    "infer_pass st = Inr ((mark_known 0 (st\<lparr>knowledge := kb1\<rparr>))\<lparr>knowledge := kb3\<rparr>)"
proof -
  from resolve_outer_returns obtain kb1
    where o: "resolve_outer (knowledge st) (knowledge st) = Inr kb1" by blast
  from remove_empty_returns obtain kb3
    where r: "remove_empty 0 (knowledge (mark_known 0 (st\<lparr>knowledge := kb1\<rparr>))) = Inr kb3"
    by blast
  from o r have "infer_pass st = Inr ((mark_known 0 (st\<lparr>knowledge := kb1\<rparr>))\<lparr>knowledge := kb3\<rparr>)"
    by (simp add: infer_pass_def Let_def)
  with o r that show ?thesis by blast
qed

lemma infer_pass_decreases:
  assumes cond: "inference_1 st \<noteq> [] \<or> inference_2 st \<noteq> [] \<or> inference_3 st \<noteq> []"
    and pass: "infer_pass st = Inr st'"
  shows "total_cells (knowledge st') < total_cells (knowledge st) \<or>
         total_cells (knowledge st') = total_cells (knowledge st) \<and>
         length (knowledge st') < length (knowledge st)"
proof -
  let ?kb = "knowledge st"
  obtain kb1 kb3 where o: "resolve_outer ?kb ?kb = Inr kb1"
    and r: "remove_empty 0 (knowledge (mark_known 0 (st\<lparr>knowledge := kb1\<rparr>))) = Inr kb3"
    and p: "infer_pass st = Inr ((mark_known 0 (st\<lparr>knowledge := kb1\<rparr>))\<lparr>knowledge := kb3\<rparr>)"
    by (rule infer_pass_returns)
  let ?st2 = "mark_known 0 (st\<lparr>knowledge := kb1\<rparr>)"
  let ?kb2 = "knowledge ?st2"
  from p pass have kb': "knowledge st' = kb3" by auto
  have sh: "list_all2 shrunk kb1 ?kb2"
    using mark_known_shrunk [of "st\<lparr>knowledge := kb1\<rparr>" 0] by simp
  have l1: "length kb1 = length ?kb" by (rule resolve_outer_length [OF o])
  have l2: "length ?kb2 = length kb1" using sh by (simp add: list_all2_lengthD)
  have t1: "total_cells kb1 \<le> total_cells ?kb" by (rule resolve_outer_total_le [OF o])
  have t2: "total_cells ?kb2 \<le> total_cells kb1" using shrunk_all_total [OF sh] by blast
  from remove_empty_returns [of 0 ?kb2] r
  have l3: "length kb3 \<le> length ?kb2" and t3: "total_cells kb3 = total_cells ?kb2" by simp_all
  show ?thesis
  proof (cases "\<exists>s\<in>set ?kb. cells s = {||}")
    case True
    from resolve_outer_keeps_empty [OF o True] obtain s where s: "s \<in> set kb1" "cells s = {||}"
      by blast
    then obtain k where k: "k < length kb1" "kb1 ! k = s" by (auto simp: in_set_conv_nth)
    from sh k(1) have "shrunk (kb1 ! k) (?kb2 ! k)" by (simp add: list_all2_nthD)
    with k(2) s(2) have "cells (?kb2 ! k) = {||}" unfolding shrunk_def by auto
    with k(1) l2 have "\<exists>k. 0 \<le> k \<and> k < length ?kb2 \<and> cells (?kb2 ! k) = {||}" by auto
    from remove_empty_length_less [OF r this] have "length kb3 < length ?kb2" .
    with l1 l2 t1 t2 t3 kb' show ?thesis by auto
  next
    case nonempty: False
    show ?thesis
    proof (cases "inference_1 st \<noteq> []")
      case True
      then have "\<exists>s1\<in>set ?kb. \<exists>s2\<in>set ?kb. is_subset s1 s2" by (simp add: inference_1_iff)
      from resolve_outer_total_less [OF o _ this] nonempty
      have "total_cells kb1 < total_cells ?kb" by blast
      with t2 t3 kb' show ?thesis by auto
    next
      case False
      then have "\<forall>s1\<in>set ?kb. \<forall>s2\<in>set ?kb. \<not> is_subset s1 s2"
        by (simp add: inference_1_iff)
      then have "resolve_outer ?kb ?kb = Inr ?kb" by (rule resolve_outer_noop)
      with o have eq: "kb1 = ?kb" by simp
      from False cond have "\<exists>s\<in>set ?kb. trigger s" using inference_23_iff by blast
      then obtain k where "k < length ?kb" "trigger (?kb ! k)" by (auto simp: in_set_conv_nth)
      then have "\<exists>k. 0 \<le> k \<and> k < length (knowledge (st\<lparr>knowledge := kb1\<rparr>)) \<and>
          trigger (knowledge (st\<lparr>knowledge := kb1\<rparr>) ! k)"
        using eq by auto
      from mark_known_total_less [OF this] have "total_cells ?kb2 < total_cells kb1" by simp
      with t1 t3 kb' show ?thesis by auto
    qed
  qed
qed

function infer_loop :: "ai \<Rightarrow> error + ai" where
  "infer_loop st =
     (if inference_1 st \<noteq> [] \<or> inference_2 st \<noteq> [] \<or> inference_3 st \<noteq> []
      then (case infer_pass st of
              Inl e \<Rightarrow> Inl e
            | Inr st' \<Rightarrow> infer_loop st')
      else Inr st)"
  by pat_completeness auto
termination
proof (relation "measures [\<lambda>st. total_cells (knowledge st), \<lambda>st. length (knowledge st)]")
  show "wf (measures [\<lambda>st. total_cells (knowledge st), \<lambda>st. length (knowledge st)])"
    by simp
next
  fix st st'
  assume "inference_1 st \<noteq> [] \<or> inference_2 st \<noteq> [] \<or> inference_3 st \<noteq> []"
    and "infer_pass st = Inr st'"
  from infer_pass_decreases [OF this]
  show "(st', st) \<in> measures [\<lambda>st. total_cells (knowledge st), \<lambda>st. length (knowledge st)]"
    by auto
qed

definition add_knowledge :: "cell \<Rightarrow> int \<Rightarrow> ai \<Rightarrow> error + ai" where
  "add_knowledge cell n st = infer_loop (observe cell n st)"

declare infer_loop.simps [simp del]

section \<open>Queries\<close>

text \<open>
  \<^verbatim>\<open>make_safe_move\<close> returns the first cell, in the iteration order of the set
  \<^verbatim>\<open>self.safes\<close>, that is neither a move made nor a known mine, and \<^verbatim>\<open>None\<close> when the
  loop ends. It assigns to nothing.
\<close>

definition make_safe_move :: "ai \<Rightarrow> cell option" where
  "make_safe_move st =
     find (\<lambda>move. move |\<notin>| moves_made st \<and> move |\<notin>| mines st) (sorted_list_of_fset (safes st))"

definition possible_moves :: "ai \<Rightarrow> cell list" where
  "possible_moves st =
     [(i, j). i \<leftarrow> range_py 0 (height st), j \<leftarrow> range_py 0 (width st),
              (i, j) |\<notin>| moves_made st \<and> (i, j) |\<notin>| mines st]"

text \<open>
  \<^verbatim>\<open>make_random_move\<close>; \<open>random_index\<close> is the number that
  \<^verbatim>\<open>random.randint(0, len(possible_moves) - 1)\<close> returns, which lies between its two bounds.
  It assigns to nothing either.
\<close>

definition make_random_move :: "nat \<Rightarrow> ai \<Rightarrow> cell option" where
  "make_random_move random_index st =
     (if possible_moves st \<noteq> [] then Some (possible_moves st ! random_index) else None)"

section \<open>Notions used to state the properties\<close>

text \<open>
  The in-bounds neighbours of a cell, as a set: the cells of the board, other than the
  cell itself, whose row and column differ from the cell's by at most one.
\<close>

definition neighbours :: "int \<Rightarrow> int \<Rightarrow> cell \<Rightarrow> cell fset" where
  "neighbours h w cell =
     ffilter (\<lambda>(i, j). (i, j) \<noteq> cell \<and> 0 \<le> i \<and> i < h \<and> 0 \<le> j \<and> j < w)
       (fset_of_list (List.product [fst cell - 1..fst cell + 1] [snd cell - 1..snd cell + 1]))"

definition in_bounds :: "ai \<Rightarrow> cell \<Rightarrow> bool" where
  "in_bounds st cell \<longleftrightarrow>
     0 \<le> fst cell \<and> fst cell < height st \<and> 0 \<le> snd cell \<and> snd cell < width st"

definition board_cells :: "int \<Rightarrow> int \<Rightarrow> cell fset" where
  "board_cells h w = fset_of_list (List.product [0..h - 1] [0..w - 1])"

text \<open>
  The two statements that the first loop nest of \<^verbatim>\<open>add_knowledge\<close> runs when it meets
  the observed cell.
\<close>

definition record_move :: "cell \<Rightarrow> ai \<Rightarrow> ai" where
  "record_move cell st = mark_safe cell (st\<lparr>moves_made := finsert cell (moves_made st)\<rparr>)"

text \<open>
  The three fact sets after an operation contain what they contained before.
\<close>

definition grows :: "ai \<Rightarrow> ai \<Rightarrow> bool" where
  "grows st st' \<longleftrightarrow>
     moves_made st |\<subseteq>| moves_made st' \<and> safes st |\<subseteq>| safes st' \<and> mines st |\<subseteq>| mines st'"



text \<open>
  Soundness with respect to a set \<open>M\<close> of mines: every sentence counts the mines among
  its cells, no proven-safe cell is a mine and every proven mine is one. An observation
  is truthful when its cell is not a mine and its count is the number of in-bounds
  neighbours of the cell that are mines; this is the count that \<^verbatim>\<open>nearby_mines\<close> returns on
  the board with the mines \<open>M\<close> (\<open>nearby_mines_eq\<close>).
\<close>

definition sound :: "cell fset \<Rightarrow> ai \<Rightarrow> bool" where
  "sound M st \<longleftrightarrow>
     (\<forall>s\<in>set (knowledge st). int (fcard (cells s |\<inter>| M)) = count s) \<and>
     safes st |\<inter>| M = {||} \<and> mines st |\<subseteq>| M"

definition truthful :: "int \<Rightarrow> int \<Rightarrow> cell fset \<Rightarrow> cell \<times> int \<Rightarrow> bool" where
  "truthful h w M obs \<longleftrightarrow>
     fst obs |\<notin>| M \<and> snd obs = int (fcard (neighbours h w (fst obs) |\<inter>| M))"

text \<open>
  A game: \<^verbatim>\<open>add_knowledge\<close> is called on the observations, one after the other; an
  exception ends it.
\<close>

fun run :: "(cell \<times> int) list \<Rightarrow> ai \<Rightarrow> error + ai" where
  "run [] st = Inr st"
| "run ((cell, n) # observations) st =
     (case add_knowledge cell n st of
        Inl e \<Rightarrow> Inl e
      | Inr st' \<Rightarrow> run observations st')"

section \<open>Facts about the operations\<close>

lemma infer_loop_returns: "\<exists>st'. infer_loop st = Inr st'"
proof (induction st rule: infer_loop.induct)
  case (1 st)
  show ?case
  proof (cases "inference_1 st \<noteq> [] \<or> inference_2 st \<noteq> [] \<or> inference_3 st \<noteq> []")
    case False
    then have "infer_loop st = Inr st" by (subst infer_loop.simps) simp
    then show ?thesis by blast
  next
    case True
    obtain st1 where p: "infer_pass st = Inr st1" by (rule infer_pass_returns) blast
    from "1.IH" [OF True p] obtain st' where "infer_loop st1 = Inr st'" by blast
    with True p have "infer_loop st = Inr st'" by (subst infer_loop.simps) simp
    then show ?thesis by blast
  qed
qed

lemma sentence_eqI: "cells a = cells b \<Longrightarrow> count a = count b \<Longrightarrow> a = (b::sentence)"
  by simp

lemma foldl_sentence_mark_safe:
  "foldl (\<lambda>s c. sentence_mark_safe c s) s xs = s\<lparr>cells := cells s |-| fset_of_list xs\<rparr>"
  by (rule sentence_eqI)
     (simp_all add: cells_foldl_sentence_mark_safe count_foldl_sentence_mark_safe)

lemma count_foldl_sentence_mark_mine:
  "distinct xs \<Longrightarrow>
     count (foldl (\<lambda>s c. sentence_mark_mine c s) s xs) =
       count s - int (fcard (cells s |\<inter>| fset_of_list xs))"
proof (induction xs arbitrary: s)
  case Nil
  then show ?case by simp
next
  case (Cons x xs)
  from Cons.prems have nx: "x |\<notin>| fset_of_list xs" and d: "distinct xs"
    by (simp_all add: fset_of_list_elem)
  have eq1: "(cells s |-| {|x|}) |\<inter>| fset_of_list xs = cells s |\<inter>| fset_of_list xs"
    using nx by auto
  have eq2: "cells s |\<inter>| finsert x (fset_of_list xs) =
      (if x |\<in>| cells s then finsert x (cells s |\<inter>| fset_of_list xs)
       else cells s |\<inter>| fset_of_list xs)"
    by auto
  have "x |\<notin>| cells s |\<inter>| fset_of_list xs" using nx by simp
  then have "fcard (finsert x (cells s |\<inter>| fset_of_list xs)) =
      Suc (fcard (cells s |\<inter>| fset_of_list xs))"
    by (simp add: fcard_finsert_disjoint)
  with Cons.IH [OF d, of "sentence_mark_mine x s"] eq1 eq2 show ?case by simp
qed

lemma foldl_sentence_mark_mine:
  "distinct xs \<Longrightarrow>
     foldl (\<lambda>s c. sentence_mark_mine c s) s xs =
       s\<lparr>cells := cells s |-| fset_of_list xs,
         count := count s - int (fcard (cells s |\<inter>| fset_of_list xs))\<rparr>"
  by (rule sentence_eqI)
     (simp_all add: cells_foldl_sentence_mark_mine count_foldl_sentence_mark_mine)

lemma safes_foldl_mark_safe:
  "safes (foldl (\<lambda>st c. mark_safe c st) st xs) = safes st |\<union>| fset_of_list xs"
  by (induction xs arbitrary: st) auto

lemma mines_foldl_mark_mine:
  "mines (foldl (\<lambda>st c. mark_mine c st) st xs) = mines st |\<union>| fset_of_list xs"
  by (induction xs arbitrary: st) auto

lemma others_foldl_mark_safe [simp]:
  "height (foldl (\<lambda>st c. mark_safe c st) st xs) = height st"
  "width (foldl (\<lambda>st c. mark_safe c st) st xs) = width st"
  "moves_made (foldl (\<lambda>st c. mark_safe c st) st xs) = moves_made st"
  "mines (foldl (\<lambda>st c. mark_safe c st) st xs) = mines st"
  by (induction xs arbitrary: st) simp_all

lemma others_foldl_mark_mine [simp]:
  "height (foldl (\<lambda>st c. mark_mine c st) st xs) = height st"
  "width (foldl (\<lambda>st c. mark_mine c st) st xs) = width st"
  "moves_made (foldl (\<lambda>st c. mark_mine c st) st xs) = moves_made st"
  "safes (foldl (\<lambda>st c. mark_mine c st) st xs) = safes st"
  by (induction xs arbitrary: st) simp_all

lemma ai_eqI:
  "height a = height b \<Longrightarrow> width a = width b \<Longrightarrow> moves_made a = moves_made b \<Longrightarrow>
   mines a = mines b \<Longrightarrow> safes a = safes b \<Longrightarrow> knowledge a = knowledge b \<Longrightarrow> a = (b::ai)"
  by simp

lemma foldl_mark_safe:
  "foldl (\<lambda>st c. mark_safe c st) st xs =
     st\<lparr>safes := safes st |\<union>| fset_of_list xs,
        knowledge := map (\<lambda>s. s\<lparr>cells := cells s |-| fset_of_list xs\<rparr>) (knowledge st)\<rparr>"
  by (rule ai_eqI)
     (simp_all add: safes_foldl_mark_safe knowledge_foldl_mark_safe foldl_sentence_mark_safe)

lemma foldl_mark_mine:
  "distinct xs \<Longrightarrow>
   foldl (\<lambda>st c. mark_mine c st) st xs =
     st\<lparr>mines := mines st |\<union>| fset_of_list xs,
        knowledge := map (\<lambda>s. s\<lparr>cells := cells s |-| fset_of_list xs,
                               count := count s - int (fcard (cells s |\<inter>| fset_of_list xs))\<rparr>)
                       (knowledge st)\<rparr>"
  by (rule ai_eqI)
     (simp_all add: mines_foldl_mark_mine knowledge_foldl_mark_mine foldl_sentence_mark_mine)

lemma distinct_sorted_list_of_fset [simp]: "distinct (sorted_list_of_fset S)"
  by (simp add: sorted_list_of_fset.rep_eq)

lemma build_sentence_eq:
  "build_sentence nb n st =
     \<lparr>cells = nb |-| (safes st |\<union>| mines st), count = n - int (fcard (nb |\<inter>| mines st))\<rparr>"
  unfolding build_sentence_def Let_def Sentence_def
  by (rule sentence_eqI)
     (auto simp: foldl_sentence_mark_safe foldl_sentence_mark_mine)

lemma sentence_mark_safe_idem [simp]:
  "sentence_mark_safe c (sentence_mark_safe c s) = sentence_mark_safe c s"
  by (rule sentence_eqI) simp_all

lemma record_move_idem: "record_move cell (record_move cell st) = record_move cell st"
  unfolding record_move_def by (rule ai_eqI) (simp_all add: comp_def)

lemma collect_loop:
  "foldl (\<lambda>(st, neibouring_cells) ij.
            if ij = cell
            then (mark_safe cell (st\<lparr>moves_made := finsert cell (moves_made st)\<rparr>),
                  neibouring_cells)
            else (st, finsert ij neibouring_cells))
     (st0, nb0) xs =
   (if cell \<in> set xs then record_move cell st0 else st0,
    nb0 |\<union>| fset_of_list (filter (\<lambda>ij. ij \<noteq> cell) xs))"
proof (induction xs arbitrary: st0 nb0)
  case Nil
  show ?case by simp
next
  case (Cons x xs)
  show ?case
  proof (cases "x = cell")
    case True
    then show ?thesis
      using Cons.IH [of "record_move cell st0" nb0]
      by (simp add: record_move_idem) (simp add: record_move_def)
  next
    case False
    then show ?thesis using Cons.IH [of st0 "finsert x nb0"] by auto
  qed
qed

lemma window_cell:
  "cell \<in> set (List.product (range_py (max 0 (fst cell - 1)) (min (fst cell + 2) (height st)))
                             (range_py (max 0 (snd cell - 1)) (min (snd cell + 2) (width st))))
   \<longleftrightarrow> in_bounds st cell"
  by (cases cell) (auto simp: range_py_def in_bounds_def)

lemma window_neighbours:
  "fset_of_list (filter (\<lambda>ij. ij \<noteq> cell)
     (List.product (range_py (max 0 (fst cell - 1)) (min (fst cell + 2) h))
                   (range_py (max 0 (snd cell - 1)) (min (snd cell + 2) w))))
   = neighbours h w cell"
  unfolding neighbours_def
  by (cases cell) (auto simp: range_py_def fset_of_list_elem)

lemma collect_neighbours_eq:
  "collect_neighbours cell st =
     (if in_bounds st cell then record_move cell st else st,
      neighbours (height st) (width st) cell)"
  unfolding collect_neighbours_def collect_loop window_cell window_neighbours by simp

lemma neighbours_iff:
  "(i, j) |\<in>| neighbours h w cell \<longleftrightarrow>
     (i, j) \<noteq> cell \<and> \<bar>i - fst cell\<bar> \<le> 1 \<and> \<bar>j - snd cell\<bar> \<le> 1 \<and>
     0 \<le> i \<and> i < h \<and> 0 \<le> j \<and> j < w"
  unfolding neighbours_def by (cases cell) (auto simp: fset_of_list_elem)

lemma cell_notin_neighbours [simp]: "cell |\<notin>| neighbours h w cell"
  by (cases cell) (simp add: neighbours_iff)

lemma record_move_fields [simp]:
  "height (record_move c st) = height st" "width (record_move c st) = width st"
  "moves_made (record_move c st) = finsert c (moves_made st)"
  "mines (record_move c st) = mines st"
  "safes (record_move c st) = finsert c (safes st)"
  "knowledge (record_move c st) = map (sentence_mark_safe c) (knowledge st)"
  by (simp_all add: record_move_def)

lemma observe_eq:
  "observe cell n st =
     (let st1 = (if in_bounds st cell then record_move cell st else st)
      in st1\<lparr>knowledge := knowledge st1 @
           [\<lparr>cells = neighbours (height st) (width st) cell |-| (safes st |\<union>| mines st),
             count = n - int (fcard (neighbours (height st) (width st) cell |\<inter>| mines st))\<rparr>]\<rparr>)"
proof -
  have "neighbours (height st) (width st) cell |-| (finsert cell (safes st) |\<union>| mines st)
      = neighbours (height st) (width st) cell |-| (safes st |\<union>| mines st)"
    using cell_notin_neighbours [of cell "height st" "width st"] by auto
  then show ?thesis
    unfolding observe_def collect_neighbours_eq by (simp add: build_sentence_eq Let_def)
qed

lemma infer_loop_invariant:
  assumes step: "\<And>st st'. P st \<Longrightarrow> infer_pass st = Inr st' \<Longrightarrow> P st'"
  shows "P st \<Longrightarrow> infer_loop st = Inr st' \<Longrightarrow> P st'"
proof (induction st rule: infer_loop.induct)
  case (1 st)
  show ?case
  proof (cases "inference_1 st \<noteq> [] \<or> inference_2 st \<noteq> [] \<or> inference_3 st \<noteq> []")
    case False
    with "1.prems"(2) have "st' = st" by (subst (asm) infer_loop.simps) simp
    with "1.prems"(1) show ?thesis by simp
  next
    case True
    obtain st1 where p: "infer_pass st = Inr st1" by (rule infer_pass_returns) blast
    with True "1.prems"(2) have "infer_loop st1 = Inr st'"
      by (subst (asm) infer_loop.simps) simp
    from "1.IH" [OF True p step [OF "1.prems"(1) p] this] show ?thesis .
  qed
qed

lemma mark_known_invariant:
  assumes step: "\<And>i st. P st \<Longrightarrow> i < length (knowledge st) \<Longrightarrow> P (mark_from i st)"
  shows "P st \<Longrightarrow> P (mark_known i st)"
proof (induction i st rule: mark_known.induct)
  case (1 i st)
  show ?case
  proof (cases "i < length (knowledge st)")
    case True
    from "1.IH" [OF True step [OF "1.prems" True]] True show ?thesis
      by (subst mark_known.simps) simp
  next
    case False
    with "1.prems" show ?thesis by (subst mark_known.simps) simp
  qed
qed

lemma infer_passE:
  assumes "infer_pass st = Inr st'"
  obtains kb1 kb3 where
    "resolve_outer (knowledge st) (knowledge st) = Inr kb1"
    "set kb3 \<subseteq> set (knowledge (mark_known 0 (st\<lparr>knowledge := kb1\<rparr>)))"
    "st' = (mark_known 0 (st\<lparr>knowledge := kb1\<rparr>))\<lparr>knowledge := kb3\<rparr>"
proof -
  obtain kb1 kb3 where o: "resolve_outer (knowledge st) (knowledge st) = Inr kb1"
    and r: "remove_empty 0 (knowledge (mark_known 0 (st\<lparr>knowledge := kb1\<rparr>))) = Inr kb3"
    and p: "infer_pass st = Inr ((mark_known 0 (st\<lparr>knowledge := kb1\<rparr>))\<lparr>knowledge := kb3\<rparr>)"
    by (rule infer_pass_returns)
  from remove_empty_returns [of 0 "knowledge (mark_known 0 (st\<lparr>knowledge := kb1\<rparr>))"] r
  have "set kb3 \<subseteq> set (knowledge (mark_known 0 (st\<lparr>knowledge := kb1\<rparr>)))" by simp
  moreover from p assms
  have "st' = (mark_known 0 (st\<lparr>knowledge := kb1\<rparr>))\<lparr>knowledge := kb3\<rparr>" by simp
  ultimately show ?thesis using o that by blast
qed

lemma resolve_inner_pred:
  assumes closed: "\<And>a b. Q a \<Longrightarrow> Q b \<Longrightarrow> is_subset a b \<Longrightarrow> Q (infer_new_sentance a b)"
  shows "Q s1 \<Longrightarrow> \<forall>s\<in>set cp. Q s \<Longrightarrow> \<forall>s\<in>set kb. Q s \<Longrightarrow>
     resolve_inner s1 cp kb = Inr kb' \<Longrightarrow> \<forall>s\<in>set kb'. Q s"
proof (induction cp arbitrary: kb)
  case Nil
  then show ?case by simp
next
  case (Cons s2 rest)
  from Cons.prems(2) have q2: "Q s2" and qr: "\<forall>s\<in>set rest. Q s" by simp_all
  from Cons.prems(4) show ?case
  proof (cases rule: resolve_inner_ConsE)
    case skip
    from Cons.IH [OF Cons.prems(1) qr Cons.prems(3) skip(2)] show ?thesis .
  next
    case (hit kb1)
    from hit(2) have "kb1 = remove1 s2 (kb @ [infer_new_sentance s1 s2])"
      by (simp add: list_remove_Inr)
    then have "set kb1 \<subseteq> insert (infer_new_sentance s1 s2) (set kb)"
      using set_remove1_subset [of s2 "kb @ [infer_new_sentance s1 s2]"] by auto
    with closed [OF Cons.prems(1) q2 hit(1)] Cons.prems(3) have "\<forall>s\<in>set kb1. Q s" by auto
    from Cons.IH [OF Cons.prems(1) qr this hit(3)] show ?thesis .
  qed
qed

lemma resolve_outer_pred:
  assumes closed: "\<And>a b. Q a \<Longrightarrow> Q b \<Longrightarrow> is_subset a b \<Longrightarrow> Q (infer_new_sentance a b)"
  shows "\<forall>s\<in>set xs. Q s \<Longrightarrow> \<forall>s\<in>set kb. Q s \<Longrightarrow>
     resolve_outer xs kb = Inr kb' \<Longrightarrow> \<forall>s\<in>set kb'. Q s"
proof (induction xs arbitrary: kb)
  case Nil
  then show ?case by simp
next
  case (Cons s1 rest)
  from Cons.prems(1) have q1: "Q s1" and qr: "\<forall>s\<in>set rest. Q s" by simp_all
  from Cons.prems(3) obtain kb1 where i: "resolve_inner s1 kb kb = Inr kb1"
    and o: "resolve_outer rest kb1 = Inr kb'"
    by (rule resolve_outer_ConsE)
  from resolve_inner_pred [of Q, OF closed q1 Cons.prems(2) Cons.prems(2) i]
  have "\<forall>s\<in>set kb1. Q s" by blast
  from Cons.IH [OF qr this o] show ?case .
qed

lemma mark_from_fields:
  "height (mark_from i st) = height st" "width (mark_from i st) = width st"
  "moves_made (mark_from i st) = moves_made st"
  "safes st |\<subseteq>| safes (mark_from i st)" "mines st |\<subseteq>| mines (mark_from i st)"
  unfolding mark_from_def Let_def
  by (auto simp: safes_foldl_mark_safe mines_foldl_mark_mine)

lemma mark_known_fields:
  "height (mark_known i st) = height st \<and> width (mark_known i st) = width st \<and>
   moves_made (mark_known i st) = moves_made st \<and>
   safes st |\<subseteq>| safes (mark_known i st) \<and> mines st |\<subseteq>| mines (mark_known i st)"
proof -
  let ?P = "\<lambda>s::ai. height s = height st \<and> width s = width st \<and> moves_made s = moves_made st \<and>
    safes st |\<subseteq>| safes s \<and> mines st |\<subseteq>| mines s"
  have "?P (mark_known i st)"
  proof (rule mark_known_invariant [of ?P])
    show "?P st" by simp
  next
    fix j s assume "?P s"
    with mark_from_fields [where i=j and st=s] show "?P (mark_from j s)" by auto
  qed
  then show ?thesis .
qed

lemma infer_pass_fields:
  assumes "infer_pass st = Inr st'"
  shows "height st' = height st" "width st' = width st" "moves_made st' = moves_made st"
    "safes st |\<subseteq>| safes st'" "mines st |\<subseteq>| mines st'"
proof -
  from assms obtain kb1 kb3 where
    st': "st' = (mark_known 0 (st\<lparr>knowledge := kb1\<rparr>))\<lparr>knowledge := kb3\<rparr>"
    by (rule infer_passE)
  from mark_known_fields [where i=0 and st="st\<lparr>knowledge := kb1\<rparr>"] st'
  show "height st' = height st" "width st' = width st" "moves_made st' = moves_made st"
    "safes st |\<subseteq>| safes st'" "mines st |\<subseteq>| mines st'"
    by simp_all
qed

lemma infer_loop_fields:
  assumes "infer_loop st = Inr st'"
  shows "height st' = height st \<and> width st' = width st \<and> moves_made st' = moves_made st \<and>
    safes st |\<subseteq>| safes st' \<and> mines st |\<subseteq>| mines st'"
proof -
  let ?P = "\<lambda>s::ai. height s = height st \<and> width s = width st \<and> moves_made s = moves_made st \<and>
    safes st |\<subseteq>| safes s \<and> mines st |\<subseteq>| mines s"
  have "?P st'"
  proof (rule infer_loop_invariant [of ?P, OF _ _ assms])
    show "?P st" by simp
  next
    fix s s' assume "?P s" "infer_pass s = Inr s'"
    with infer_pass_fields [where st=s and st'=s'] show "?P s'" by auto
  qed
  then show ?thesis .
qed

lemma observe_fields:
  "height (observe cell n st) = height st" "width (observe cell n st) = width st"
  "moves_made (observe cell n st) =
     (if in_bounds st cell then finsert cell (moves_made st) else moves_made st)"
  "safes (observe cell n st) = (if in_bounds st cell then finsert cell (safes st) else safes st)"
  "mines (observe cell n st) = mines st"
  by (simp_all add: observe_eq Let_def)












lemma board_cells_iff: "(i, j) |\<in>| board_cells h w \<longleftrightarrow> 0 \<le> i \<and> i < h \<and> 0 \<le> j \<and> j < w"
  by (auto simp: board_cells_def fset_of_list_elem)

lemma set_possible_moves:
  "fset_of_list (possible_moves st) =
     board_cells (height st) (width st) |-| (moves_made st |\<union>| mines st)"
  unfolding possible_moves_def board_cells_def range_py_def
  by (auto simp: fset_of_list_elem)

lemma find_SomeD: "find P xs = Some x \<Longrightarrow> x \<in> set xs \<and> P x"
  by (induction xs) (auto split: if_splits)

lemma count_loop:
  "foldl (\<lambda>cnt (i, j).
            if (i, j) = cell then cnt
            else if 0 \<le> i \<and> i < h \<and> 0 \<le> j \<and> j < w
                 then (if (i, j) |\<in>| board then cnt + 1 else cnt)
                 else cnt) acc xs =
   acc + int (length (filter (\<lambda>(i, j). (i, j) \<noteq> cell \<and> 0 \<le> i \<and> i < h \<and> 0 \<le> j \<and> j < w \<and>
                                         (i, j) |\<in>| board) xs))"
proof (induction xs arbitrary: acc)
  case Nil
  show ?case by simp
next
  case (Cons x xs)
  obtain a b where x: "x = (a, b)" by (cases x)
  show ?case unfolding x foldl_Cons filter.simps
    by (subst Cons.IH) simp
qed

lemma fcard_fset_of_list: "distinct xs \<Longrightarrow> fcard (fset_of_list xs) = length xs"
  by (simp add: fcard.rep_eq fset_of_list.rep_eq distinct_card)

lemma nearby_mines_eq: "nearby_mines h w M cell = int (fcard (neighbours h w cell |\<inter>| M))"
proof -
  let ?xs = "List.product [fst cell - 1..fst cell + 1] [snd cell - 1..snd cell + 1]"
  let ?P = "\<lambda>(i, j). (i, j) \<noteq> cell \<and> 0 \<le> i \<and> i < h \<and> 0 \<le> j \<and> j < w \<and> (i, j) |\<in>| M"
  have d: "distinct (filter ?P ?xs)" by (simp add: distinct_product)
  have "x + 2 - 1 = x + 1" for x :: int by arith
  then have r: "range_py (x - 1) (x + 2) = [x - 1..x + 1]" for x
    unfolding range_py_def by (rule arg_cong)
  have 1: "nearby_mines h w M cell = int (length (filter ?P ?xs))"
    unfolding nearby_mines_def r count_loop by simp
  have 2: "neighbours h w cell |\<inter>| M = fset_of_list (filter ?P ?xs)"
    unfolding neighbours_def by auto
  show ?thesis unfolding 1 2 fcard_fset_of_list [OF d] ..
qed

lemma sound_mark_safe: "sound M st \<Longrightarrow> c |\<notin>| M \<Longrightarrow> sound M (mark_safe c st)"
proof -
  assume s: "sound M st" and c: "c |\<notin>| M"
  have "(A |-| {|c|}) |\<inter>| M = A |\<inter>| M" for A using c by auto
  with s c show ?thesis unfolding sound_def by auto
qed

lemma sound_mark_mine: "sound M st \<Longrightarrow> c |\<in>| M \<Longrightarrow> sound M (mark_mine c st)"
proof -
  assume s: "sound M st" and c: "c |\<in>| M"
  have "int (fcard (cells (sentence_mark_mine c a) |\<inter>| M)) = count (sentence_mark_mine c a)"
    if a: "int (fcard (cells a |\<inter>| M)) = count a" for a
  proof (cases "c |\<in>| cells a")
    case True
    have eq: "(cells a |-| {|c|}) |\<inter>| M = (cells a |\<inter>| M) |-| {|c|}" by auto
    from True c have "c |\<in>| cells a |\<inter>| M" by simp
    from fcard_Suc_fminus1 [OF this] a True show ?thesis by (simp add: eq)
  next
    case False
    then have "(cells a |-| {|c|}) |\<inter>| M = cells a |\<inter>| M" by auto
    with False a show ?thesis by simp
  qed
  with s c show ?thesis unfolding sound_def by auto
qed

lemma sound_foldl_mark_safe:
  "sound M st \<Longrightarrow> \<forall>c\<in>set xs. c |\<notin>| M \<Longrightarrow> sound M (foldl (\<lambda>st c. mark_safe c st) st xs)"
  by (induction xs arbitrary: st) (simp_all add: sound_mark_safe)

lemma sound_foldl_mark_mine:
  "sound M st \<Longrightarrow> \<forall>c\<in>set xs. c |\<in>| M \<Longrightarrow> sound M (foldl (\<lambda>st c. mark_mine c st) st xs)"
  by (induction xs arbitrary: st) (simp_all add: sound_mark_mine)

lemma sound_known_safes:
  assumes "int (fcard (cells s |\<inter>| M)) = count s" "c |\<in>| known_safes s"
  shows "c |\<notin>| M"
proof -
  from assms(2) have z: "count s = 0" and c: "c |\<in>| cells s"
    by (auto simp: known_safes_def split: if_splits)
  from assms(1) z have "cells s |\<inter>| M = {||}" by simp
  with c show ?thesis by auto
qed

lemma sound_known_mines:
  assumes "int (fcard (cells s |\<inter>| M)) = count s" "c |\<in>| known_mines s"
  shows "c |\<in>| M"
proof -
  from assms(2) have z: "int (fcard (cells s)) = count s" and c: "c |\<in>| cells s"
    by (auto simp: known_mines_def split: if_splits)
  from assms(1) z have "fcard (cells s) \<le> fcard (cells s |\<inter>| M)" by simp
  moreover have "cells s |\<inter>| M |\<subseteq>| cells s" by auto
  ultimately have "cells s |\<inter>| M = cells s" by (rule fcard_seteq [rotated])
  with c show ?thesis by auto
qed

lemma sound_mark_from:
  assumes "sound M st" "i < length (knowledge st)"
  shows "sound M (mark_from i st)"
proof -
  let ?s = "knowledge st ! i"
  let ?st1 = "foldl (\<lambda>st c. mark_safe c st) st (sorted_list_of_fset (known_safes ?s))"
  let ?s1 = "knowledge ?st1 ! i"
  from assms have "int (fcard (cells ?s |\<inter>| M)) = count ?s" by (simp add: sound_def)
  then have "\<forall>c\<in>set (sorted_list_of_fset (known_safes ?s)). c |\<notin>| M"
    using sound_known_safes by auto
  from sound_foldl_mark_safe [OF assms(1) this] have s1: "sound M ?st1" .
  from assms(2) have "?s1 \<in> set (knowledge ?st1)" by simp
  with s1 have "int (fcard (cells ?s1 |\<inter>| M)) = count ?s1" unfolding sound_def by blast
  then have "\<forall>c\<in>set (sorted_list_of_fset (known_mines ?s1)). c |\<in>| M"
    using sound_known_mines by auto
  from sound_foldl_mark_mine [OF s1 this] show ?thesis
    by (simp add: mark_from_def Let_def)
qed

lemma sound_mark_known: "sound M st \<Longrightarrow> sound M (mark_known i st)"
  by (rule mark_known_invariant [of "sound M"]) (rule sound_mark_from)

lemma sound_infer_new_sentance:
  assumes "int (fcard (cells a |\<inter>| M)) = count a" "int (fcard (cells b |\<inter>| M)) = count b"
    "is_subset a b"
  shows "int (fcard (cells (infer_new_sentance a b) |\<inter>| M)) = count (infer_new_sentance a b)"
proof -
  from assms(3) have sub: "cells a |\<inter>| M |\<subseteq>| cells b |\<inter>| M"
    by (auto simp: is_subset_def split: if_splits)
  have eq: "(cells b |-| cells a) |\<inter>| M = (cells b |\<inter>| M) |-| (cells a |\<inter>| M)" by auto
  have "fcard ((cells b |\<inter>| M) |-| (cells a |\<inter>| M)) + fcard (cells a |\<inter>| M) =
      fcard (cells b |\<inter>| M)"
    using sub by (simp add: fcard.rep_eq less_eq_fset.rep_eq card_Diff_subset card_mono)
  with assms(1,2) show ?thesis
    by (simp add: infer_new_sentance_def Sentence_def Let_def eq)
qed

lemma sound_infer_pass:
  assumes "sound M st" "infer_pass st = Inr st'"
  shows "sound M st'"
proof -
  from assms(2) obtain kb1 kb3 where
    o: "resolve_outer (knowledge st) (knowledge st) = Inr kb1"
    and sub: "set kb3 \<subseteq> set (knowledge (mark_known 0 (st\<lparr>knowledge := kb1\<rparr>)))"
    and st': "st' = (mark_known 0 (st\<lparr>knowledge := kb1\<rparr>))\<lparr>knowledge := kb3\<rparr>"
    by (rule infer_passE)
  let ?Q = "\<lambda>s. int (fcard (cells s |\<inter>| M)) = count s"
  from assms(1) have all: "\<forall>s\<in>set (knowledge st). ?Q s" by (simp add: sound_def)
  have "\<forall>s\<in>set kb1. ?Q s"
    by (rule resolve_outer_pred [of ?Q, OF _ all all o]) (rule sound_infer_new_sentance)
  with assms(1) have "sound M (st\<lparr>knowledge := kb1\<rparr>)" by (simp add: sound_def)
  then have "sound M (mark_known 0 (st\<lparr>knowledge := kb1\<rparr>))" by (rule sound_mark_known)
  with sub st' show ?thesis unfolding sound_def by auto
qed

lemma sound_infer_loop: "sound M st \<Longrightarrow> infer_loop st = Inr st' \<Longrightarrow> sound M st'"
  by (rule infer_loop_invariant [of "sound M"]) (rule sound_infer_pass)

lemma sound_observe:
  assumes "sound M st" "truthful (height st) (width st) M (cell, n)"
  shows "sound M (observe cell n st)"
proof -
  let ?N = "neighbours (height st) (width st) cell"
  let ?st1 = "if in_bounds st cell then record_move cell st else st"
  from assms(2) have c: "cell |\<notin>| M" and n: "n = int (fcard (?N |\<inter>| M))"
    by (simp_all add: truthful_def)
  from assms(1) have "sound M (st\<lparr>moves_made := finsert cell (moves_made st)\<rparr>)"
    by (simp add: sound_def)
  from sound_mark_safe [OF this c] assms(1) have s1: "sound M ?st1"
    by (simp add: record_move_def)
  from assms(1) have dis: "safes st |\<inter>| M = {||}" and sub: "mines st |\<subseteq>| M"
    by (simp_all add: sound_def)
  have eq: "(?N |-| (safes st |\<union>| mines st)) |\<inter>| M = (?N |\<inter>| M) |-| (?N |\<inter>| mines st)"
    using dis by auto
  have "?N |\<inter>| mines st |\<subseteq>| ?N |\<inter>| M" using sub by auto
  then have "fcard ((?N |\<inter>| M) |-| (?N |\<inter>| mines st)) + fcard (?N |\<inter>| mines st) =
      fcard (?N |\<inter>| M)"
    by (simp add: fcard.rep_eq less_eq_fset.rep_eq card_Diff_subset card_mono)
  with n eq have new: "int (fcard ((?N |-| (safes st |\<union>| mines st)) |\<inter>| M)) =
      n - int (fcard (?N |\<inter>| mines st))"
    by simp
  from s1 new show ?thesis
    unfolding observe_eq Let_def sound_def by auto
qed

lemma sound_add_knowledge:
  assumes "sound M st" "truthful (height st) (width st) M (cell, n)"
  shows "\<exists>st'. add_knowledge cell n st = Inr st' \<and> sound M st' \<and>
    height st' = height st \<and> width st' = width st"
proof -
  obtain st' where a: "infer_loop (observe cell n st) = Inr st'"
    using infer_loop_returns by blast
  from sound_infer_loop [OF sound_observe [OF assms] a] have "sound M st'" .
  moreover from infer_loop_fields [OF a] have "height st' = height st" "width st' = width st"
    by (simp_all add: observe_fields)
  ultimately show ?thesis using a by (simp add: add_knowledge_def)
qed

lemma sound_run:
  "sound M st \<Longrightarrow> \<forall>obs\<in>set observations. truthful (height st) (width st) M obs \<Longrightarrow>
     \<exists>st'. run observations st = Inr st' \<and> sound M st'"
proof (induction observations arbitrary: st)
  case Nil
  then show ?case by simp
next
  case (Cons obs observations)
  obtain cell n where obs: "obs = (cell, n)" by (cases obs)
  from Cons.prems(2) obs have "truthful (height st) (width st) M (cell, n)" by simp
  from sound_add_knowledge [OF Cons.prems(1) this] obtain st1 where
    a: "add_knowledge cell n st = Inr st1" and s: "sound M st1"
    and hw: "height st1 = height st" "width st1 = width st"
    by blast
  from Cons.prems(2) hw have "\<forall>obs\<in>set observations. truthful (height st1) (width st1) M obs"
    by simp
  from Cons.IH [OF s this] obtain st' where "run observations st1 = Inr st'" "sound M st'"
    by blast
  with a obs have "run (obs # observations) st = Inr st' \<and> sound M st'" by simp
  then show ?case by blast
qed






section \<open>Soundness\<close>

text \<open>
  Claim C1. Let \<open>M\<close> be any set of mines and let every observation fed to
  \<^verbatim>\<open>add_knowledge\<close>, starting from a fresh knowledge base for an \<open>h\<close> by \<open>w\<close> board, be
  truthful: its cell is not in \<open>M\<close> and its count is the number of in-bounds neighbours
  of the cell that are in \<open>M\<close> (which is what \<^verbatim>\<open>nearby_mines\<close> returns). Then
  after every call (after the first \<open>k\<close> observations, for every \<open>k\<close>) the call has
  returned, every sentence of the knowledge list has exactly its count of cells in \<open>M\<close>,
  no proven-safe cell is in \<open>M\<close> and every proven mine is in \<open>M\<close>.
\<close>

theorem knowledge_sound:
  assumes "\<forall>obs\<in>set observations. truthful h w M obs"
  shows "\<exists>st. run (take k observations) (MinesweeperAI h w) = Inr st \<and>
           (\<forall>s\<in>set (knowledge st). int (fcard (cells s |\<inter>| M)) = count s) \<and>
           safes st |\<inter>| M = {||} \<and> mines st |\<subseteq>| M"
proof -
  have "sound M (MinesweeperAI h w)" by (simp add: sound_def MinesweeperAI_def)
  moreover have "\<forall>obs\<in>set (take k observations).
      truthful (height (MinesweeperAI h w)) (width (MinesweeperAI h w)) M obs"
    using assms by (auto simp: MinesweeperAI_def dest: in_set_takeD)
  ultimately show ?thesis using sound_run [of M "MinesweeperAI h w" "take k observations"]
    by (simp add: sound_def)
qed

text \<open>
  A game on a board of height 1 and width 6 with mines at (0, 1) and (0, 5): the three
  observations that \<^verbatim>\<open>nearby_mines\<close> produces at (0, 2), (0, 4) and (0, 0) are truthful.
\<close>

theorem knowledge_sound_witness:
  "truthful 1 6 {|(0, 1), (0, 5)|} ((0, 2), nearby_mines 1 6 {|(0, 1), (0, 5)|} (0, 2)) \<and>
   truthful 1 6 {|(0, 1), (0, 5)|} ((0, 4), nearby_mines 1 6 {|(0, 1), (0, 5)|} (0, 4)) \<and>
   truthful 1 6 {|(0, 1), (0, 5)|} ((0, 0), nearby_mines 1 6 {|(0, 1), (0, 5)|} (0, 0)) \<and>
   (\<exists>st. run [((0, 2), nearby_mines 1 6 {|(0, 1), (0, 5)|} (0, 2)),
               ((0, 4), nearby_mines 1 6 {|(0, 1), (0, 5)|} (0, 4)),
               ((0, 0), nearby_mines 1 6 {|(0, 1), (0, 5)|} (0, 0))] (MinesweeperAI 1 6) = Inr st \<and>
      safes st |\<inter>| {|(0, 1), (0, 5)|} = {||} \<and> mines st |\<subseteq>| {|(0, 1), (0, 5)|})"
proof -
  let ?M = "{|(0, 1), (0, 5)|} :: cell fset"
  have t: "truthful 1 6 ?M ((0, 2), nearby_mines 1 6 ?M (0, 2))"
    "truthful 1 6 ?M ((0, 4), nearby_mines 1 6 ?M (0, 4))"
    "truthful 1 6 ?M ((0, 0), nearby_mines 1 6 ?M (0, 0))"
    by code_simp+
  then have "\<forall>obs\<in>set [((0, 2), nearby_mines 1 6 ?M (0, 2)),
      ((0, 4), nearby_mines 1 6 ?M (0, 4)), ((0, 0), nearby_mines 1 6 ?M (0, 0))].
      truthful 1 6 ?M obs"
    by simp
  from knowledge_sound [OF this, of 3] t show ?thesis by auto
qed

section \<open>Termination\<close>

text \<open>
  Claim C2. The \<^verbatim>\<open>while\<close> loop of \<^verbatim>\<open>add_knowledge\<close> is the function \<open>infer_loop\<close>, defined by
  well-founded recursion: a pass that the loop condition allows makes the pair (sum of the
  sizes of the cell sets, number of sentences) smaller in the lexicographic order
  (\<open>infer_pass_decreases\<close>), so only finitely many passes happen. No \<^verbatim>\<open>list.remove\<close> of a
  pass raises. Hence every call of \<^verbatim>\<open>add_knowledge\<close>, on every board and in every state,
  returns a state.
\<close>

theorem add_knowledge_terminates: "\<exists>st'. add_knowledge cell n st = Inr st'"
  unfolding add_knowledge_def by (rule infer_loop_returns)

section \<open>Sentences\<close>

text \<open>
  Claim C3, as stated, fails: \<^verbatim>\<open>Sentence.__init__\<close> has no check. A sentence with no cell
  and count \<open>-1\<close> is built, and \<^verbatim>\<open>add_knowledge((0, 0), 9)\<close> on a fresh 2x2 board returns
  with the sentence "9 of the 3 neighbours are mines" in its knowledge.
\<close>

theorem invalid_count_counterexample:
  "Sentence {||} (- 1) = \<lparr>cells = {||}, count = - 1\<rparr> \<and>
   add_knowledge (0, 0) 9 (MinesweeperAI 2 2) =
     Inr \<lparr>height = 2, width = 2, moves_made = {|(0, 0)|}, mines = {||}, safes = {|(0, 0)|},
          knowledge = [\<lparr>cells = {|(0, 1), (1, 0), (1, 1)|}, count = 9\<rparr>]\<rparr>"
  by code_simp

text \<open>
  Claim C3, amended. For every cell set and every integer count, valid or not, the
  constructor returns the sentence with exactly these cells and this count, and
  \<^verbatim>\<open>add_knowledge\<close> returns a state for every observed count: no error is signalled and
  nothing is clamped.
\<close>

theorem invalid_count_accepted:
  "cells (Sentence cs n) = cs \<and> count (Sentence cs n) = n \<and>
   (\<exists>st'. add_knowledge cell n st = Inr st')"
  using infer_loop_returns [of "observe cell n st"]
  by (simp add: Sentence_def add_knowledge_def)

text \<open>
  Claim C6. \<^verbatim>\<open>is_subset\<close> holds exactly when the cells of the first sentence are a proper
  subset of the cells of the second (so not when the two cell sets are equal), and
  \<^verbatim>\<open>infer_new_sentance\<close> returns the sentence whose cells are the second's minus the first's
  and whose count is the second's minus the first's; this holds for every pair, in
  particular under the subset test.
\<close>

theorem subset_resolution:
  "(is_subset A B \<longleftrightarrow> cells A |\<subset>| cells B) \<and>
   infer_new_sentance A B = \<lparr>cells = cells B |-| cells A, count = count B - count A\<rparr>"
  by (auto simp: is_subset_def infer_new_sentance_def Sentence_def Let_def)

section \<open>Marking\<close>

text \<open>
  Claim C4, as stated, fails: neither \<^verbatim>\<open>mark_safe\<close> nor \<^verbatim>\<open>mark_mine\<close> looks at the other
  set. Marking (0, 0) as a mine and then as safe (or the other way round) returns a state
  with the cell in both sets.
\<close>

theorem mark_both_counterexample:
  "(0, 0) |\<in>| safes (mark_safe (0, 0) (mark_mine (0, 0) (MinesweeperAI 8 8))) \<and>
   (0, 0) |\<in>| mines (mark_safe (0, 0) (mark_mine (0, 0) (MinesweeperAI 8 8))) \<and>
   (0, 0) |\<in>| safes (mark_mine (0, 0) (mark_safe (0, 0) (MinesweeperAI 8 8))) \<and>
   (0, 0) |\<in>| mines (mark_mine (0, 0) (mark_safe (0, 0) (MinesweeperAI 8 8)))"
  by (simp add: MinesweeperAI_def)

text \<open>
  Claim C4, amended. \<^verbatim>\<open>mark_safe\<close> adds the cell to the proven-safe set and leaves the
  proven-mine set as it is; \<^verbatim>\<open>mark_mine\<close> adds the cell to the proven-mine set and leaves
  the proven-safe set as it is. Both return a state whatever the other set holds, so a
  cell that was in the other set is in both sets afterwards.
\<close>

theorem mark_ignores_other_set:
  "safes (mark_safe c st) = finsert c (safes st) \<and> mines (mark_safe c st) = mines st \<and>
   mines (mark_mine c st) = finsert c (mines st) \<and> safes (mark_mine c st) = safes st"
  by simp

text \<open>
  Claim C9. \<^verbatim>\<open>mark_safe\<close>, \<^verbatim>\<open>mark_mine\<close> and \<^verbatim>\<open>add_knowledge\<close> return, and the sets of moves
  made, of proven-safe cells and of proven mines of the state they return contain the
  sets of the state they were called in. (The two queries \<^verbatim>\<open>make_safe_move\<close> and
  \<^verbatim>\<open>make_random_move\<close> assign to no attribute: their models return a move and no state.)
\<close>

theorem facts_only_grow:
  "grows st (mark_safe c st) \<and> grows st (mark_mine c st) \<and>
   (\<exists>st'. add_knowledge cell n st = Inr st' \<and> grows st st')"
proof -
  obtain st' where a: "infer_loop (observe cell n st) = Inr st'"
    using infer_loop_returns by blast
  from infer_loop_fields [OF a] observe_fields [of cell n st]
  have "grows st st'" unfolding grows_def by (auto split: if_splits)
  with a have "\<exists>st'. add_knowledge cell n st = Inr st' \<and> grows st st'"
    by (simp add: add_knowledge_def)
  moreover have "grows st (mark_safe c st)" "grows st (mark_mine c st)"
    by (auto simp: grows_def)
  ultimately show ?thesis by blast
qed




section \<open>The sentence of an observation\<close>

text \<open>
  Claim C7. \<^verbatim>\<open>add_knowledge\<close> runs its loop from the state \<open>observe cell n st\<close>, whose
  knowledge list is the previous one (with the observed cell removed from its sentences,
  when the cell is on the board) followed by the new sentence. The cells of the new
  sentence are the in-bounds neighbours of the observed cell that are neither proven safe
  nor proven mines; its count is the observed count minus the number of neighbours that
  are proven mines. Proven-safe neighbours are dropped and leave the count as it is.
\<close>

theorem observation_sentence:
  "knowledge (observe cell n st) =
     (if in_bounds st cell then map (sentence_mark_safe cell) (knowledge st) else knowledge st) @
     [\<lparr>cells = neighbours (height st) (width st) cell |-| (safes st |\<union>| mines st),
       count = n - int (fcard (neighbours (height st) (width st) cell |\<inter>| mines st))\<rparr>] \<and>
   add_knowledge cell n st = infer_loop (observe cell n st) \<and>
   ((i, j) |\<in>| neighbours (height st) (width st) cell \<longleftrightarrow>
      (i, j) \<noteq> cell \<and> \<bar>i - fst cell\<bar> \<le> 1 \<and> \<bar>j - snd cell\<bar> \<le> 1 \<and>
      0 \<le> i \<and> i < height st \<and> 0 \<le> j \<and> j < width st)"
  by (simp add: observe_eq Let_def add_knowledge_def neighbours_iff)

section \<open>Empty sentences\<close>

text \<open>
  Claim C5 does not hold of the code. On a 2x2 board without mines, after
  \<^verbatim>\<open>add_knowledge((0, 0), 0)\<close> the call \<^verbatim>\<open>add_knowledge((0, 1), 0)\<close> builds a sentence without
  cells, appends it, and returns without a single pass of the loop: the sentence
  stays. On a board of height 1 and width 6 with mines at (0, 1) and (0, 5), the
  observations ((0, 2), 1), ((0, 4), 1), ((0, 0), 1) end with a sentence without cells
  too: the clean-up loop removes from the list it iterates over, so it skips the
  element that follows each removal, as its run on three sentences shows.
\<close>

theorem empty_sentence_persists:
  "add_knowledge (0, 0) 0 (MinesweeperAI 2 2) =
     Inr \<lparr>height = 2, width = 2, moves_made = {|(0, 0)|}, mines = {||},
          safes = {|(0, 0), (0, 1), (1, 0), (1, 1)|}, knowledge = []\<rparr> \<and>
   add_knowledge (0, 1) 0
       \<lparr>height = 2, width = 2, moves_made = {|(0, 0)|}, mines = {||},
        safes = {|(0, 0), (0, 1), (1, 0), (1, 1)|}, knowledge = []\<rparr> =
     Inr \<lparr>height = 2, width = 2, moves_made = {|(0, 0), (0, 1)|}, mines = {||},
          safes = {|(0, 0), (0, 1), (1, 0), (1, 1)|},
          knowledge = [\<lparr>cells = {||}, count = 0\<rparr>]\<rparr> \<and>
   run [((0, 2), 1), ((0, 4), 1), ((0, 0), 1)] (MinesweeperAI 1 6) =
     Inr \<lparr>height = 1, width = 6, moves_made = {|(0, 0), (0, 2), (0, 4)|},
          mines = {|(0, 1), (0, 5)|}, safes = {|(0, 0), (0, 2), (0, 3), (0, 4)|},
          knowledge = [\<lparr>cells = {||}, count = 0\<rparr>]\<rparr> \<and>
   remove_empty 0 [\<lparr>cells = {|(0, 5)|}, count = 1\<rparr>, \<lparr>cells = {||}, count = 0\<rparr>,
                   \<lparr>cells = {||}, count = 0\<rparr>] =
     Inr [\<lparr>cells = {|(0, 5)|}, count = 1\<rparr>, \<lparr>cells = {||}, count = 0\<rparr>]"
  by code_simp

section \<open>The two queries\<close>

text \<open>
  Claim C8, as stated, fails for \<^verbatim>\<open>make_safe_move\<close>: the loop also skips the proven mines.
  After \<^verbatim>\<open>mark_safe((0, 0))\<close> and \<^verbatim>\<open>mark_mine((0, 0))\<close> the proven-safe set minus the moves
  made is not empty, and \<^verbatim>\<open>make_safe_move\<close> returns \<^verbatim>\<open>None\<close>.
\<close>

theorem safe_move_counterexample:
  "safes (mark_mine (0, 0) (mark_safe (0, 0) (MinesweeperAI 8 8))) |-|
     moves_made (mark_mine (0, 0) (mark_safe (0, 0) (MinesweeperAI 8 8))) \<noteq> {||} \<and>
   make_safe_move (mark_mine (0, 0) (mark_safe (0, 0) (MinesweeperAI 8 8))) = None"
  by code_simp

text \<open>
  Claim C8, amended. \<^verbatim>\<open>make_safe_move\<close> returns a cell of the proven-safe set minus the
  moves made and the proven mines when that set is not empty, and \<^verbatim>\<open>None\<close> otherwise.
  \<^verbatim>\<open>make_random_move\<close> returns \<^verbatim>\<open>None\<close> exactly when the board minus the moves made and the
  proven mines is empty, and otherwise (the random index then being one of the list) a
  cell of that set.
\<close>

theorem query_contract:
  "(case make_safe_move st of
      None \<Rightarrow> safes st |-| (moves_made st |\<union>| mines st) = {||}
    | Some move \<Rightarrow> move |\<in>| safes st |-| (moves_made st |\<union>| mines st)) \<and>
   (make_random_move random_index st = None \<longleftrightarrow>
      board_cells (height st) (width st) |-| (moves_made st |\<union>| mines st) = {||}) \<and>
   (random_index < length (possible_moves st) \<longrightarrow>
      (\<exists>move. make_random_move random_index st = Some move \<and>
         move |\<in>| board_cells (height st) (width st) |-| (moves_made st |\<union>| mines st)))"
proof -
  have safe: "case make_safe_move st of
      None \<Rightarrow> safes st |-| (moves_made st |\<union>| mines st) = {||}
    | Some move \<Rightarrow> move |\<in>| safes st |-| (moves_made st |\<union>| mines st)"
  proof (cases "make_safe_move st")
    case None
    then have "x |\<in>| moves_made st \<or> x |\<in>| mines st" if "x |\<in>| safes st" for x
      using that by (cases x) (auto simp: make_safe_move_def find_None_iff)
    then have "safes st |-| (moves_made st |\<union>| mines st) = {||}" by auto
    with None show ?thesis by simp
  next
    case (Some move)
    then have "move \<in> set (sorted_list_of_fset (safes st)) \<and>
        move |\<notin>| moves_made st \<and> move |\<notin>| mines st"
      unfolding make_safe_move_def by (rule find_SomeD)
    then have "move |\<in>| safes st |-| (moves_made st |\<union>| mines st)" by simp
    with Some show ?thesis by simp
  qed
  have empty: "possible_moves st = [] \<longleftrightarrow>
      board_cells (height st) (width st) |-| (moves_made st |\<union>| mines st) = {||}"
    using set_possible_moves [of st] by (cases "possible_moves st") auto
  have rnd: "\<exists>move. make_random_move random_index st = Some move \<and>
         move |\<in>| board_cells (height st) (width st) |-| (moves_made st |\<union>| mines st)"
    if "random_index < length (possible_moves st)"
  proof -
    from that have ne: "possible_moves st \<noteq> []" by auto
    from that have "possible_moves st ! random_index \<in> set (possible_moves st)" by simp
    then have "possible_moves st ! random_index |\<in>| fset_of_list (possible_moves st)"
      by (simp add: fset_of_list_elem)
    with ne show ?thesis by (simp add: make_random_move_def set_possible_moves)
  qed
  from safe empty rnd show ?thesis by (auto simp: make_random_move_def)
qed

text \<open>On a fresh 2x2 board the index 0 is one that \<^verbatim>\<open>random.randint\<close> can return.\<close>

theorem query_contract_witness:
  "0 < length (possible_moves (MinesweeperAI 2 2)) \<and>
   (\<exists>move. make_random_move 0 (MinesweeperAI 2 2) = Some move \<and>
      move |\<in>| board_cells 2 2 |-| (moves_made (MinesweeperAI 2 2) |\<union>| mines (MinesweeperAI 2 2)))"
proof -
  have h: "0 < length (possible_moves (MinesweeperAI 2 2))" by code_simp
  from query_contract [of "MinesweeperAI 2 2" 0] h show ?thesis
    by (simp add: MinesweeperAI_def)
qed

end
